theory Spec2Isabelle
  imports Main "HOL-Library.AList" "HOL-Library.Sublist"
begin

section \<open>Strings and the regular expressions of \<open>mcp-secrets.ts\<close>\<close>

text \<open>
  A JavaScript string is a sequence of UTF-16 code units. The model uses \<open>string\<close>
  (a list of \<open>char\<close>), a \<open>char\<close> standing for a code unit below 256. The character
  classes of the source's regular expressions are written out as predicates on \<open>char\<close>.
  None of the patterns tested or matched carries the \<open>u\<close>, \<open>m\<close> or \<open>g\<close> flag, so they work
  code unit by code unit, \<open>^\<close> and \<open>$\<close> are the two ends of the input, and \<open>test\<close>
  keeps no position between calls.
\<close>

definition upper_letters :: string where
  "upper_letters = ''ABCDEFGHIJKLMNOPQRSTUVWXYZ''"

definition lower_letters :: string where
  "lower_letters = ''abcdefghijklmnopqrstuvwxyz''"

definition digit_chars :: string where
  "digit_chars = ''0123456789''"

definition is_upper :: "char \<Rightarrow> bool" where
  "is_upper c = (c \<in> set upper_letters)"

definition is_lower :: "char \<Rightarrow> bool" where
  "is_lower c = (c \<in> set lower_letters)"

definition is_digit :: "char \<Rightarrow> bool" where
  "is_digit c = (c \<in> set digit_chars)"

text \<open>The class \<open>[a-zA-Z0-9]\<close>.\<close>

definition is_alnum :: "char \<Rightarrow> bool" where
  "is_alnum c = (is_lower c \<or> is_upper c \<or> is_digit c)"

text \<open>
  The class \<open>\s\<close>, which is also what \<open>String.prototype.trim\<close> removes: tab, line
  feed, vertical tab, form feed, carriage return, space and the no-break space
  (the other white space of ECMAScript lies above 255).
\<close>

definition is_space :: "char \<Rightarrow> bool" where
  "is_space c = (c \<in> set [CHR 0x09, CHR 0x0A, CHR 0x0B, CHR 0x0C, CHR 0x0D, CHR 0x20, CHR 0xA0])"

text \<open>
  \<open>toUpperCase\<close> and \<open>toLowerCase\<close> on the letters \<open>a\<close> to \<open>z\<close>; every other code unit
  is kept. The source upper-cases only strings of ASCII letters, digits and
  underscores (the cleaned token of \<open>toEnvToken\<close>), and compares a lower-cased header
  name only with ASCII literals, which no code unit above 127 lower-cases into.
\<close>

definition toUpperCase :: "string \<Rightarrow> string" where
  "toUpperCase s =
     map (\<lambda>c. case map_of (zip lower_letters upper_letters) c of Some u \<Rightarrow> u | None \<Rightarrow> c) s"

definition toLowerCase :: "string \<Rightarrow> string" where
  "toLowerCase s =
     map (\<lambda>c. case map_of (zip upper_letters lower_letters) c of Some l \<Rightarrow> l | None \<Rightarrow> c) s"

definition trim :: "string \<Rightarrow> string" where
  "trim s = rev (dropWhile is_space (rev (dropWhile is_space s)))"

subsection \<open>\<open>ENV_PLACEHOLDER_PATTERN = /\{env:[^}]+\}/i\<close>\<close>

text \<open>
  The pattern matches at the start of a string when the string begins with \<open>{\<close>, the
  letters \<open>env\<close> in either case, \<open>:\<close>, then at least one code unit other than \<open>}\<close>, and
  the run of such code units is followed by \<open>}\<close>. (The greedy \<open>[^}]+\<close> cannot give
  anything back to let \<open>\}\<close> match earlier, since it never matches \<open>}\<close>.)
\<close>

fun env_placeholder_at :: "string \<Rightarrow> bool" where
  "env_placeholder_at (b # e # n # v # c # rest) =
     (b = CHR ''{'' \<and> toUpperCase [e, n, v] = ''ENV'' \<and> c = CHR '':'' \<and>
      takeWhile (\<lambda>x. x \<noteq> CHR ''}'') rest \<noteq> [] \<and>
      dropWhile (\<lambda>x. x \<noteq> CHR ''}'') rest \<noteq> [])"
| "env_placeholder_at _ = False"

text \<open>\<open>ENV_PLACEHOLDER_PATTERN.test(value)\<close>: the pattern matches at some position.\<close>

fun ENV_PLACEHOLDER_PATTERN_test :: "string \<Rightarrow> bool" where
  "ENV_PLACEHOLDER_PATTERN_test [] = False"
| "ENV_PLACEHOLDER_PATTERN_test (c # cs) =
     (env_placeholder_at (c # cs) \<or> ENV_PLACEHOLDER_PATTERN_test cs)"

subsection \<open>Environment variable names\<close>

text \<open>\<open>.replace(/[^a-zA-Z0-9]+/g, '_')\<close>: every maximal run of other code units becomes one underscore.\<close>

function replace_non_alnum_runs :: "string \<Rightarrow> string" where
  "replace_non_alnum_runs [] = []"
| "replace_non_alnum_runs (c # cs) =
     (if is_alnum c then c # replace_non_alnum_runs cs
      else CHR ''_'' # replace_non_alnum_runs (dropWhile (\<lambda>x. \<not> is_alnum x) cs))"
  by pat_completeness auto
termination
  by (relation "measure length") (auto simp: less_Suc_eq_le length_dropWhile_le)

text \<open>\<open>.replace(/^_+|_+$/g, '')\<close>: the underscores at the two ends are removed.\<close>

definition strip_underscores :: "string \<Rightarrow> string" where
  "strip_underscores s =
     rev (dropWhile (\<lambda>x. x = CHR ''_'') (rev (dropWhile (\<lambda>x. x = CHR ''_'') s)))"

definition toEnvToken :: "string \<Rightarrow> string \<Rightarrow> string" where
  "toEnvToken input fallback =
     (let cleaned = strip_underscores (replace_non_alnum_runs (trim input))
      in if cleaned = [] then fallback else toUpperCase cleaned)"

definition buildEnvVar :: "string \<Rightarrow> string \<Rightarrow> string" where
  "buildEnvVar serverName key =
     (let serverToken = toEnvToken serverName ''SERVER'';
          keyToken = toEnvToken key ''VALUE''
      in ''OPENCODE_MCP_'' @ serverToken @ ''_'' @ keyToken)"

text \<open>\<open>/^[A-Z0-9_]+$/.test(headerName)\<close>.\<close>

definition is_env_name :: "string \<Rightarrow> bool" where
  "is_env_name s = (s \<noteq> [] \<and> list_all (\<lambda>c. is_upper c \<or> is_digit c \<or> c = CHR ''_'') s)"

definition buildHeaderEnvVar :: "string \<Rightarrow> string \<Rightarrow> string" where
  "buildHeaderEnvVar serverName headerName =
     (if is_env_name headerName then headerName else buildEnvVar serverName headerName)"

subsection \<open>Placeholders\<close>

definition isAuthorizationHeader :: "string \<Rightarrow> bool" where
  "isAuthorizationHeader headerName =
     (if headerName = [] then False
      else let normalized = toLowerCase headerName
           in normalized = ''authorization'' \<or> normalized = ''proxy-authorization'')"

text \<open>The class \<open>[A-Za-z0-9+.-]\<close>.\<close>

definition is_scheme_char :: "char \<Rightarrow> bool" where
  "is_scheme_char c = (is_alnum c \<or> c = CHR ''+'' \<or> c = CHR ''.'' \<or> c = CHR ''-'')"

text \<open>
  \<open>value.match(/^([A-Za-z][A-Za-z0-9+.-]*)\s+/)\<close>: \<open>None\<close> when there is no match,
  otherwise the whole match \<open>schemeMatch[0]\<close>, the scheme with the white space after it.
  Both repetitions are greedy, and the scheme cannot give a code unit back to the white
  space, the two classes being disjoint.
\<close>

definition scheme_match :: "string \<Rightarrow> string option" where
  "scheme_match val =
     (case val of
        [] \<Rightarrow> None
      | c # cs \<Rightarrow>
          if is_lower c \<or> is_upper c then
            let scheme = c # takeWhile is_scheme_char cs;
                spaces = takeWhile is_space (dropWhile is_scheme_char cs)
            in if spaces = [] then None else Some (scheme @ spaces)
          else None)"

definition buildHeaderPlaceholder :: "string \<Rightarrow> string \<Rightarrow> string \<Rightarrow> string" where
  "buildHeaderPlaceholder val envVar headerName =
     (if \<not> isAuthorizationHeader headerName then ''{env:'' @ envVar @ ''}''
      else case scheme_match val of
             Some schemeMatch \<Rightarrow> schemeMatch @ ''{env:'' @ envVar @ ''}''
           | None \<Rightarrow> ''{env:'' @ envVar @ ''}'')"

section \<open>JavaScript values\<close>

text \<open>
  The values the module handles. The JSON values are \<open>JNull\<close>, \<open>JBool\<close>, \<open>JNum\<close>,
  \<open>JStr\<close>, \<open>JArr\<close> and the objects whose prototype is \<open>Object.prototype\<close>. The code
  never looks inside a number, so a finite number is an \<open>int\<close>. A parameter of type
  \<open>unknown\<close> can also hold values JSON cannot represent: \<open>JUndefined\<close>, \<open>JFunction\<close>
  (a function object), \<open>JNonFinite\<close> (\<open>NaN\<close> and the infinities), \<open>JBigInt\<close>.

  An object \<open>JObj proto props\<close> has its own enumerable properties \<open>props\<close>, in the order
  \<open>Object.entries\<close> lists them, and its prototype \<open>proto\<close>: the built-in
  \<open>Object.prototype\<close> (the value \<open>JObjectPrototype\<close>) for an object literal and for
  every object \<open>JSON.parse\<close> creates, another object once \<open>__proto__\<close> has been assigned.
\<close>

datatype jsvalue =
    JUndefined
  | JNull
  | JBool bool
  | JNum int
  | JNonFinite
  | JBigInt int
  | JStr string
  | JFunction
  | JObjectPrototype
  | JArr "jsvalue list"
  | JObj jsvalue "(string \<times> jsvalue) list"

abbreviation Obj :: "(string \<times> jsvalue) list \<Rightarrow> jsvalue" where
  "Obj props \<equiv> JObj JObjectPrototype props"

text \<open>
  \<open>isPlainObject(value)\<close>: an object whose prototype is \<open>Object.prototype\<close>. Arrays,
  functions and \<open>Object.prototype\<close> itself (whose prototype is \<open>null\<close>) are objects
  with another prototype; \<open>null\<close> and the primitives fail the first test.
\<close>

fun isPlainObject :: "jsvalue \<Rightarrow> bool" where
  "isPlainObject (JObj proto props) = (proto = JObjectPrototype)"
| "isPlainObject _ = False"

text \<open>
  \<open>Object.entries(value)\<close> and \<open>Object.hasOwn(target, key)\<close> for an object
  \<open>JObj proto props\<close>. The module applies them to plain objects only.
\<close>

fun entries :: "jsvalue \<Rightarrow> (string \<times> jsvalue) list" where
  "entries (JObj proto props) = props"
| "entries _ = []"

definition hasOwn :: "jsvalue \<Rightarrow> string \<Rightarrow> bool" where
  "hasOwn target key = (map_of (entries target) key \<noteq> None)"

text \<open>The function-valued properties every object inherits from \<open>Object.prototype\<close>.\<close>

definition object_prototype_methods :: "string list" where
  "object_prototype_methods =
     [''constructor'', ''hasOwnProperty'', ''isPrototypeOf'', ''propertyIsEnumerable'',
      ''toLocaleString'', ''toString'', ''valueOf'', ''__defineGetter__'',
      ''__defineSetter__'', ''__lookupGetter__'', ''__lookupSetter__'']"

text \<open>
  Reading \<open>receiver[key]\<close> walks the prototype chain: \<open>chain_get p obj key\<close> looks at
  \<open>obj\<close> and then at its prototypes, \<open>p\<close> being the prototype of the receiver. On
  \<open>Object.prototype\<close> the key \<open>__proto__\<close> is an accessor whose getter returns the
  prototype of the receiver.
\<close>

fun chain_get :: "jsvalue \<Rightarrow> jsvalue \<Rightarrow> string \<Rightarrow> jsvalue" where
  "chain_get p (JObj proto props) key =
     (case map_of props key of Some v \<Rightarrow> v | None \<Rightarrow> chain_get p proto key)"
| "chain_get p JObjectPrototype key =
     (if key = ''__proto__'' then p
      else if key \<in> set object_prototype_methods then JFunction
      else JUndefined)"
| "chain_get p _ key = JUndefined"

fun js_get :: "jsvalue \<Rightarrow> string \<Rightarrow> jsvalue" where
  "js_get (JObj proto props) key = chain_get proto (JObj proto props) key"
| "js_get _ key = JUndefined"

text \<open>
  The assignment \<open>receiver[key] = v\<close>. \<open>reaches_proto_setter obj key\<close>: no object of the
  chain from \<open>obj\<close> has an own property \<open>key\<close> and the chain ends in the \<open>__proto__\<close>
  accessor of \<open>Object.prototype\<close>. Then the setter runs: it replaces the prototype of
  the receiver when \<open>v\<close> is an object or \<open>null\<close> and does nothing otherwise. In every
  other case the assignment updates or creates an own property of the receiver
  (\<open>AList.update\<close> keeps the place of a key that exists and appends a new one;
  JavaScript lists the keys that are array indices before the others, which the model
  does not do for a created key: the theorems read an object by key).
\<close>

fun reaches_proto_setter :: "jsvalue \<Rightarrow> string \<Rightarrow> bool" where
  "reaches_proto_setter (JObj proto props) key =
     (map_of props key = None \<and> reaches_proto_setter proto key)"
| "reaches_proto_setter JObjectPrototype key = (key = ''__proto__'')"
| "reaches_proto_setter _ key = False"

fun is_object_or_null :: "jsvalue \<Rightarrow> bool" where
  "is_object_or_null (JObj proto props) = True"
| "is_object_or_null (JArr xs) = True"
| "is_object_or_null JFunction = True"
| "is_object_or_null JObjectPrototype = True"
| "is_object_or_null JNull = True"
| "is_object_or_null _ = False"

fun js_set :: "jsvalue \<Rightarrow> string \<Rightarrow> jsvalue \<Rightarrow> jsvalue" where
  "js_set (JObj proto props) key v =
     (if reaches_proto_setter (JObj proto props) key
      then (if is_object_or_null v then JObj v props else JObj proto props)
      else JObj proto (AList.update key v props))"
| "js_set target key v = target"

text \<open>
  The code keeps references into the structure it mutates (\<open>current = current[key]\<close>,
  \<open>headers\<close>, \<open>oauth\<close>). The model mutates the referenced object and puts the
  result back where the read found it: \<open>write_back receiver key v\<close> is \<open>receiver\<close> once
  the object that \<open>receiver[key]\<close> returned has become \<open>v\<close>.
\<close>

fun write_back :: "jsvalue \<Rightarrow> string \<Rightarrow> jsvalue \<Rightarrow> jsvalue" where
  "write_back (JObj proto props) key v =
     (case map_of props key of
        Some old \<Rightarrow> JObj proto (AList.update key v props)
      | None \<Rightarrow>
          if reaches_proto_setter proto key then JObj v props
          else JObj (write_back proto key v) props)"
| "write_back target key v = target"

text \<open>\<open>delete result[key]\<close> on an own property.\<close>

fun js_delete :: "jsvalue \<Rightarrow> string \<Rightarrow> jsvalue" where
  "js_delete (JObj proto props) key = JObj proto (AList.delete key props)"
| "js_delete target key = target"

subsection \<open>\<open>cloneConfig\<close>: \<open>JSON.parse(JSON.stringify(config))\<close>\<close>

datatype js_error = TypeError | SyntaxError

text \<open>
  \<open>json_clone v\<close> is what \<open>JSON.parse\<close> reads back from the text \<open>JSON.stringify\<close>
  writes for \<open>v\<close>: \<open>None\<close> where \<open>stringify\<close> writes nothing (\<open>undefined\<close> and
  functions: such a property is left out of an object and such an element of an array
  becomes \<open>null\<close>), \<open>null\<close> for a number that is not finite, a \<open>TypeError\<close> for a
  BigInt. Only own enumerable properties are written, and every object read back has
  the prototype \<open>Object.prototype\<close>.

  Two things \<open>JSON.stringify\<close> does are outside these equations. It calls the function
  an object has or inherits under the name \<open>toJSON\<close> and writes what the call returns;
  a function is inert in \<open>jsvalue\<close>, so \<open>json_clone\<close> is the clone of the code for the
  values where \<open>has_toJSON_method\<close> (below) is \<open>False\<close>, and says nothing of the others.
  It throws a \<open>TypeError\<close> on a cyclic structure, which is not a value of \<open>jsvalue\<close>.
\<close>

fun json_clone :: "jsvalue \<Rightarrow> js_error + jsvalue option"
  and json_clone_elements :: "jsvalue list \<Rightarrow> js_error + jsvalue list"
  and json_clone_props :: "(string \<times> jsvalue) list \<Rightarrow> js_error + (string \<times> jsvalue) list"
where
  "json_clone JUndefined = Inr None"
| "json_clone JFunction = Inr None"
| "json_clone JNull = Inr (Some JNull)"
| "json_clone (JBool b) = Inr (Some (JBool b))"
| "json_clone (JNum n) = Inr (Some (JNum n))"
| "json_clone JNonFinite = Inr (Some JNull)"
| "json_clone (JBigInt n) = Inl TypeError"
| "json_clone (JStr s) = Inr (Some (JStr s))"
| "json_clone JObjectPrototype = Inr (Some (Obj []))"
| "json_clone (JArr xs) =
     (case json_clone_elements xs of Inl e \<Rightarrow> Inl e | Inr ys \<Rightarrow> Inr (Some (JArr ys)))"
| "json_clone (JObj proto props) =
     (case json_clone_props props of Inl e \<Rightarrow> Inl e | Inr ps \<Rightarrow> Inr (Some (Obj ps)))"
| "json_clone_elements [] = Inr []"
| "json_clone_elements (x # xs) =
     (case json_clone x of
        Inl e \<Rightarrow> Inl e
      | Inr y \<Rightarrow>
          (case json_clone_elements xs of
             Inl e \<Rightarrow> Inl e
           | Inr ys \<Rightarrow> Inr ((case y of None \<Rightarrow> JNull | Some c \<Rightarrow> c) # ys)))"
| "json_clone_props [] = Inr []"
| "json_clone_props (kv # rest) =
     (case json_clone (snd kv) of
        Inl e \<Rightarrow> Inl e
      | Inr y \<Rightarrow>
          (case json_clone_props rest of
             Inl e \<Rightarrow> Inl e
           | Inr ps \<Rightarrow> Inr ((case y of None \<Rightarrow> [] | Some c \<Rightarrow> [(fst kv, c)]) @ ps)))"

text \<open>
  \<open>has_toJSON_method v\<close>: among the objects \<open>JSON.stringify\<close> visits in \<open>v\<close> (the value,
  its own properties, the elements of its arrays) one has or inherits a function
  under the name \<open>toJSON\<close>. Neither \<open>Object.prototype\<close> nor an array has one.
\<close>

fun has_toJSON_method :: "jsvalue \<Rightarrow> bool" where
  "has_toJSON_method (JObj proto props) =
     (js_get (JObj proto props) ''toJSON'' = JFunction \<or>
      list_ex (\<lambda>kv. has_toJSON_method (snd kv)) props)"
| "has_toJSON_method (JArr xs) = list_ex has_toJSON_method xs"
| "has_toJSON_method _ = False"

text \<open>
  At the top, \<open>JSON.stringify\<close> returns \<open>undefined\<close> for \<open>undefined\<close> and for a
  function, which \<open>JSON.parse\<close> rejects with a \<open>SyntaxError\<close>.
\<close>

definition cloneConfig :: "jsvalue \<Rightarrow> js_error + jsvalue" where
  "cloneConfig config =
     (case json_clone config of
        Inl e \<Rightarrow> Inl e
      | Inr None \<Rightarrow> Inl SyntaxError
      | Inr (Some c) \<Rightarrow> Inr c)"

text \<open>
  A JSON-compatible value: built from the JSON constructors only, every object with the
  prototype \<open>Object.prototype\<close>, and no key twice in an object (an object has one
  property for a key).
\<close>

fun json_compatible :: "jsvalue \<Rightarrow> bool" where
  "json_compatible JNull = True"
| "json_compatible (JBool b) = True"
| "json_compatible (JNum n) = True"
| "json_compatible (JStr s) = True"
| "json_compatible (JArr xs) = list_all json_compatible xs"
| "json_compatible (JObj proto props) =
     (proto = JObjectPrototype \<and> distinct (map fst props) \<and>
      list_all (\<lambda>kv. json_compatible (snd kv)) props)"
| "json_compatible _ = False"

section \<open>\<open>extractMcpSecrets\<close>\<close>

text \<open>\<open>isSecretString(value)\<close>, and \<open>String(value)\<close> for the strings it is called on.\<close>

fun isSecretString :: "jsvalue \<Rightarrow> bool" where
  "isSecretString (JStr s) = (length s > 0 \<and> \<not> ENV_PLACEHOLDER_PATTERN_test s)"
| "isSecretString _ = False"

fun js_String :: "jsvalue \<Rightarrow> string" where
  "js_String (JStr s) = s"
| "js_String _ = []"

text \<open>
  \<open>setNestedValue(target, path, value)\<close>. The loop walks \<open>path\<close> but for its last key,
  replacing by \<open>{}\<close> whatever it reads that is not a plain object, and assigns at the
  last key. (For the empty path, \<open>path[-1]\<close> is \<open>undefined\<close> and the key of the
  assignment is the string \<open>undefined\<close>.)
\<close>

fun setNestedValue :: "jsvalue \<Rightarrow> string list \<Rightarrow> jsvalue \<Rightarrow> jsvalue" where
  "setNestedValue target [] v = js_set target ''undefined'' v"
| "setNestedValue target [key] v = js_set target key v"
| "setNestedValue target (key # key' # path) v =
     (let current = (if \<not> isPlainObject (js_get target key) then js_set target key (Obj [])
                     else target)
      in write_back current key (setNestedValue (js_get current key) (key' # path) v))"

record McpSecretExtraction =
  sanitizedConfig :: jsvalue
  secretOverrides :: jsvalue

text \<open>
  The loop over \<open>Object.entries(headers)\<close> (lines 25 to 31). The entries are those of
  \<open>headers\<close> before the loop; the state is \<open>headers\<close> and \<open>secretOverrides\<close>.
\<close>

fun extract_headers ::
  "string \<Rightarrow> (string \<times> jsvalue) list \<Rightarrow> jsvalue \<times> jsvalue \<Rightarrow> jsvalue \<times> jsvalue" where
  "extract_headers serverName [] (headers, overrides) = (headers, overrides)"
| "extract_headers serverName ((headerName, headerValue) # rest) (headers, overrides) =
     (if \<not> isSecretString headerValue
      then extract_headers serverName rest (headers, overrides)
      else
        let envVar = buildHeaderEnvVar serverName headerName;
            placeholder = buildHeaderPlaceholder (js_String headerValue) envVar headerName
        in extract_headers serverName rest
             (js_set headers headerName (JStr placeholder),
              setNestedValue overrides [''mcp'', serverName, ''headers'', headerName] headerValue))"

text \<open>
  The body of the loop over the servers, for a plain \<open>serverConfig\<close>: the headers
  (lines 23 to 32), then the OAuth client secret (lines 34 to 42). Each part takes
  \<open>serverConfig\<close> and \<open>secretOverrides\<close> and returns them as it leaves them.
\<close>

definition extract_server_headers ::
  "string \<Rightarrow> jsvalue \<Rightarrow> jsvalue \<Rightarrow> jsvalue \<times> jsvalue" where
  "extract_server_headers serverName serverConfig overrides =
     (let headers = js_get serverConfig ''headers''
      in if isPlainObject headers
         then let (headers', overrides') =
                    extract_headers serverName (entries headers) (headers, overrides)
              in (write_back serverConfig ''headers'' headers', overrides')
         else (serverConfig, overrides))"

definition extract_server_oauth ::
  "string \<Rightarrow> jsvalue \<Rightarrow> jsvalue \<Rightarrow> jsvalue \<times> jsvalue" where
  "extract_server_oauth serverName serverConfig overrides =
     (let oauth = js_get serverConfig ''oauth''
      in if isPlainObject oauth
         then
           let clientSecret = js_get oauth ''clientSecret''
           in if isSecretString clientSecret
              then
                let envVar = buildEnvVar serverName ''OAUTH_CLIENT_SECRET'';
                    oauth' = js_set oauth ''clientSecret'' (JStr (''{env:'' @ envVar @ ''}''))
                in (write_back serverConfig ''oauth'' oauth',
                    setNestedValue overrides
                      [''mcp'', serverName, ''oauth'', ''clientSecret''] clientSecret)
              else (serverConfig, overrides)
         else (serverConfig, overrides))"

definition extract_server :: "string \<Rightarrow> jsvalue \<Rightarrow> jsvalue \<Rightarrow> jsvalue \<times> jsvalue" where
  "extract_server serverName serverConfig overrides =
     (let (serverConfig', overrides') = extract_server_headers serverName serverConfig overrides
      in extract_server_oauth serverName serverConfig' overrides')"

text \<open>The loop over \<open>Object.entries(mcp)\<close> (line 19); the state is \<open>mcp\<close> and \<open>secretOverrides\<close>.\<close>

fun extract_servers ::
  "(string \<times> jsvalue) list \<Rightarrow> jsvalue \<times> jsvalue \<Rightarrow> jsvalue \<times> jsvalue" where
  "extract_servers [] (mcp, overrides) = (mcp, overrides)"
| "extract_servers ((serverName, serverConfigValue) # rest) (mcp, overrides) =
     (if \<not> isPlainObject serverConfigValue then extract_servers rest (mcp, overrides)
      else
        let (serverConfig', overrides') = extract_server serverName serverConfigValue overrides
        in extract_servers rest (write_back mcp serverName serverConfig', overrides'))"

text \<open>
  \<open>extractMcpSecrets(config)\<close>. Reading \<open>sanitizedConfig.mcp\<close> throws a \<open>TypeError\<close>
  when the clone is \<open>null\<close>; on any other value that is not an object it gives
  \<open>undefined\<close>.
\<close>

definition extractMcpSecrets :: "jsvalue \<Rightarrow> js_error + McpSecretExtraction" where
  "extractMcpSecrets config =
     (case cloneConfig config of
        Inl e \<Rightarrow> Inl e
      | Inr clone \<Rightarrow>
          if clone = JNull then Inl TypeError
          else
            let mcp = js_get clone ''mcp''
            in if \<not> isPlainObject mcp
               then Inr \<lparr>sanitizedConfig = clone, secretOverrides = Obj []\<rparr>
               else
                 let (mcp', overrides) = extract_servers (entries mcp) (mcp, Obj [])
                 in Inr \<lparr>sanitizedConfig = write_back clone ''mcp'' mcp',
                         secretOverrides = overrides\<rparr>)"

section \<open>\<open>stripOverrideKeys\<close>, \<open>hasOverrides\<close> and \<open>mergeOverrides\<close>\<close>

text \<open>
  \<open>stripOverrideKeys(base, toRemove)\<close>; \<open>strip_loop\<close> is the loop over
  \<open>Object.entries(toRemove)\<close> with \<open>result\<close> as its state, started from the copy
  \<open>{ ...base }\<close>.
\<close>

function stripOverrideKeys :: "jsvalue \<Rightarrow> jsvalue \<Rightarrow> jsvalue"
  and strip_loop :: "jsvalue \<Rightarrow> (string \<times> jsvalue) list \<Rightarrow> jsvalue"
where
  "stripOverrideKeys base toRemove =
     (if \<not> isPlainObject base \<or> \<not> isPlainObject toRemove then base
      else strip_loop (Obj (entries base)) (entries toRemove))"
| "strip_loop result [] = result"
| "strip_loop result ((key, removeValue) # rest) =
     (if \<not> hasOwn result key then strip_loop result rest
      else
        let currentValue = js_get result key
        in if isPlainObject removeValue \<and> isPlainObject currentValue
           then
             let stripped = stripOverrideKeys currentValue removeValue
             in if length (entries stripped) = 0
                then strip_loop (js_delete result key) rest
                else strip_loop (js_set result key stripped) rest
           else strip_loop (js_delete result key) rest)"
  by pat_completeness auto
termination
  by (relation "measure (\<lambda>x. case x of
          Inl (base, toRemove) \<Rightarrow> size toRemove
        | Inr (result, es) \<Rightarrow> size_list (size_prod (\<lambda>k. 0) size) es)")
     (auto elim!: isPlainObject.elims)

text \<open>
  \<open>hasOverrides(value)\<close> is \<open>Object.keys(value).length > 0\<close>. \<open>Object.keys\<close> lists the
  own enumerable keys: those of the properties of an object, the indices (in decimal)
  of an array and of a string, none for the other primitives, for a function and for
  \<open>Object.prototype\<close>; it throws a \<open>TypeError\<close> for \<open>null\<close> and \<open>undefined\<close>.
\<close>

definition digit_char :: "nat \<Rightarrow> char" where
  "digit_char d = ''0123456789'' ! d"

function decimal :: "nat \<Rightarrow> string" where
  "decimal n = (if n < 10 then [digit_char n] else decimal (n div 10) @ [digit_char (n mod 10)])"
  by pat_completeness auto
termination
  by (relation "measure (\<lambda>n. n)") auto

fun object_keys :: "jsvalue \<Rightarrow> js_error + string list" where
  "object_keys JUndefined = Inl TypeError"
| "object_keys JNull = Inl TypeError"
| "object_keys (JObj proto props) = Inr (map fst props)"
| "object_keys (JArr xs) = Inr (map decimal [0..<length xs])"
| "object_keys (JStr s) = Inr (map decimal [0..<length s])"
| "object_keys _ = Inr []"

definition hasOverrides :: "jsvalue \<Rightarrow> js_error + bool" where
  "hasOverrides v =
     (case object_keys v of Inl e \<Rightarrow> Inl e | Inr keys \<Rightarrow> Inr (length keys > 0))"

text \<open>
  Modelled from the spec: \<open>deepMerge\<close> of \<open>./config.js\<close>, which \<open>mergeOverrides\<close> calls
  and which is not among the sources. The spec (section 4.2): for every path present in
  both, if both values are plain mappings, merge recursively; otherwise the value of
  \<open>extra\<close> wins; what is not in \<open>extra\<close> is left as in \<open>base\<close>; keys only in \<open>extra\<close> are
  added; a new structure is returned.
\<close>

function deepMerge :: "jsvalue \<Rightarrow> jsvalue \<Rightarrow> jsvalue"
  and merge_loop :: "(string \<times> jsvalue) list \<Rightarrow> (string \<times> jsvalue) list \<Rightarrow> (string \<times> jsvalue) list"
where
  "deepMerge base extra =
     (if isPlainObject base \<and> isPlainObject extra
      then Obj (merge_loop (entries base) (entries extra))
      else extra)"
| "merge_loop result [] = result"
| "merge_loop result ((key, extraValue) # rest) =
     (case map_of result key of
        Some baseValue \<Rightarrow>
          merge_loop (AList.update key (deepMerge baseValue extraValue) result) rest
      | None \<Rightarrow> merge_loop (AList.update key extraValue result) rest)"
  by pat_completeness auto
termination
  by (relation "measure (\<lambda>x. case x of
          Inl (base, extra) \<Rightarrow> size extra
        | Inr (result, es) \<Rightarrow> size_list (size_prod (\<lambda>k. 0) size) es)")
     (auto elim!: isPlainObject.elims)

definition mergeOverrides :: "jsvalue \<Rightarrow> jsvalue \<Rightarrow> jsvalue" where
  "mergeOverrides base extra = deepMerge base extra"

section \<open>The vocabulary of the claims\<close>

subsection \<open>Paths and secret sites\<close>

text \<open>
  \<open>get_path v path\<close> follows own properties from \<open>v\<close> along \<open>path\<close>: what
  \<open>v.k1.k2...\<close> holds as own properties, \<open>None\<close> where a key is absent or the value
  on the way is not an object. \<open>own_prop v key\<close> is the own property \<open>key\<close> of \<open>v\<close>.
  Prototypes are not followed: the view is the one \<open>Object.keys\<close>, \<open>JSON.stringify\<close>
  and a deep comparison have.
\<close>

fun get_path :: "jsvalue \<Rightarrow> string list \<Rightarrow> jsvalue option" where
  "get_path v [] = Some v"
| "get_path (JObj proto props) (key # path) =
     (case map_of props key of None \<Rightarrow> None | Some c \<Rightarrow> get_path c path)"
| "get_path _ (key # path) = None"

definition own_prop :: "jsvalue \<Rightarrow> string \<Rightarrow> jsvalue option" where
  "own_prop v key = map_of (entries v) key"

fun is_JObj :: "jsvalue \<Rightarrow> bool" where
  "is_JObj (JObj proto props) = True"
| "is_JObj _ = False"

text \<open>
  The two shapes of path the extractor writes to: \<open>mcp.<server>.headers.<name>\<close>
  and \<open>mcp.<server>.oauth.clientSecret\<close>. A container path is a proper prefix of such
  a path. A secret site of a document is such a path where the document holds a secret
  string.
\<close>

fun header_path :: "string list \<Rightarrow> bool" where
  "header_path [a, serverName, b, headerName] = (a = ''mcp'' \<and> b = ''headers'')"
| "header_path _ = False"

fun client_secret_path :: "string list \<Rightarrow> bool" where
  "client_secret_path [a, serverName, b, c] = (a = ''mcp'' \<and> b = ''oauth'' \<and> c = ''clientSecret'')"
| "client_secret_path _ = False"

definition secret_path :: "string list \<Rightarrow> bool" where
  "secret_path p = (header_path p \<or> client_secret_path p)"

fun container_path :: "string list \<Rightarrow> bool" where
  "container_path [] = True"
| "container_path [a] = (a = ''mcp'')"
| "container_path [a, serverName] = (a = ''mcp'')"
| "container_path [a, serverName, b] = (a = ''mcp'' \<and> (b = ''headers'' \<or> b = ''oauth''))"
| "container_path _ = False"

definition secret_site :: "jsvalue \<Rightarrow> string list \<Rightarrow> bool" where
  "secret_site D p = (secret_path p \<and> (case get_path D p of Some v \<Rightarrow> isSecretString v | None \<Rightarrow> False))"

text \<open>
  The sanitized document, described without a loop: \<open>sanitize_at pre v\<close> is the value
  \<open>v\<close> found at the path \<open>pre\<close>, with a placeholder put for every secret at a secret
  path below. The code of \<open>extractMcpSecrets\<close> is proved to compute it.
\<close>

fun placeholder_for :: "string list \<Rightarrow> jsvalue \<Rightarrow> string" where
  "placeholder_for [a, serverName, b, key] v =
     (if b = ''headers''
      then buildHeaderPlaceholder (js_String v) (buildHeaderEnvVar serverName key) key
      else ''{env:'' @ buildEnvVar serverName ''OAUTH_CLIENT_SECRET'' @ ''}'')"
| "placeholder_for _ v = []"

function sanitize_at :: "string list \<Rightarrow> jsvalue \<Rightarrow> jsvalue" where
  "sanitize_at pre v =
     (if secret_path pre then (if isSecretString v then JStr (placeholder_for pre v) else v)
      else if container_path pre \<and> isPlainObject v
      then Obj (map (\<lambda>kv. (fst kv, sanitize_at (pre @ [fst kv]) (snd kv))) (entries v))
      else v)"
  by pat_completeness auto
termination
  apply (relation "measure (\<lambda>(pre, v). size v)")
   apply simp
  apply (auto elim!: isPlainObject.elims)
  subgoal for pre a b props
    by (induction props) auto
  done

declare sanitize_at.simps [simp del]

text \<open>
  What holds of \<open>secretOverrides\<close> after every call of \<open>setNestedValue\<close>: below the
  depth of a secret path there are only objects, and every other entry is a secret of
  the document \<open>D\<close>, at its own path.
\<close>

definition overrides_inv :: "jsvalue \<Rightarrow> jsvalue \<Rightarrow> bool" where
  "overrides_inv D T =
     (is_JObj T \<and>
      (\<forall>q w. get_path T q = Some w \<longrightarrow>
         (length q < 4 \<and> is_JObj w) \<or> (secret_site D q \<and> get_path D q = Some w)))"

subsection \<open>Already sanitized documents, values JSON cannot carry\<close>

text \<open>
  A value that already matches \<open>{env:...}\<close>, and a document in which every header value
  and every \<open>oauth.clientSecret\<close> does.
\<close>

fun placeholder_value :: "jsvalue \<Rightarrow> bool" where
  "placeholder_value (JStr s) = ENV_PLACEHOLDER_PATTERN_test s"
| "placeholder_value _ = False"

definition already_sanitized :: "jsvalue \<Rightarrow> bool" where
  "already_sanitized D =
     (isPlainObject (js_get D ''mcp'') \<longrightarrow>
      list_all (\<lambda>server.
         isPlainObject (snd server) \<longrightarrow>
           (isPlainObject (js_get (snd server) ''headers'') \<longrightarrow>
              list_all (\<lambda>header. placeholder_value (snd header))
                (entries (js_get (snd server) ''headers''))) \<and>
           (isPlainObject (js_get (snd server) ''oauth'') \<longrightarrow>
              (case map_of (entries (js_get (snd server) ''oauth'')) ''clientSecret'' of
                 None \<Rightarrow> True
               | Some v \<Rightarrow> placeholder_value v)))
        (entries (js_get D ''mcp'')))"


subsection \<open>Tokens as runs of letters and digits\<close>

text \<open>
  The token of the claim on variable names, in its words: the maximal runs of ASCII
  letters and digits of the input, upper-cased and joined by single underscores, or
  the fallback when there is none. \<open>split_fields\<close> cuts the input at every other
  character; the runs are the pieces that are not empty.
\<close>

fun split_fields :: "string \<Rightarrow> string list" where
  "split_fields [] = [Nil]"
| "split_fields (c # cs) =
     (if is_alnum c
      then (case split_fields cs of f # fs \<Rightarrow> (c # f) # fs | [] \<Rightarrow> [c] # Nil)
      else [] # split_fields cs)"

definition alnum_runs :: "string \<Rightarrow> string list" where
  "alnum_runs s = filter (\<lambda>f. f \<noteq> []) (split_fields s)"

fun join_underscore :: "string list \<Rightarrow> string" where
  "join_underscore [] = []"
| "join_underscore [r] = r"
| "join_underscore (r # rs) = r @ ''_'' @ join_underscore rs"

definition env_token_of_runs :: "string \<Rightarrow> string \<Rightarrow> string" where
  "env_token_of_runs input fallback =
     (if alnum_runs input = [] then fallback
      else join_underscore (map toUpperCase (alnum_runs input)))"

definition strip_trailing :: "string \<Rightarrow> string" where
  "strip_trailing s = rev (dropWhile (\<lambda>x. x = CHR ''_'') (rev s))"

definition starts_alnum :: "string \<Rightarrow> bool" where
  "starts_alnum s = (s = [] \<or> is_alnum (hd s))"

subsection \<open>One key of \<open>stripOverrideKeys\<close>\<close>

text \<open>
  What the loop of \<open>stripOverrideKeys\<close> leaves at a key that \<open>base\<close> and \<open>toRemove\<close>
  both have: the stripped nested mapping when both values are plain mappings and the
  result is not empty, nothing otherwise.
\<close>

definition strip_value :: "jsvalue \<Rightarrow> jsvalue \<Rightarrow> jsvalue option" where
  "strip_value currentValue removeValue =
     (if isPlainObject removeValue \<and> isPlainObject currentValue
      then (if entries (stripOverrideKeys currentValue removeValue) = [] then None
            else Some (stripOverrideKeys currentValue removeValue))
      else None)"

subsection \<open>The secrets in the order of the iterations\<close>

text \<open>
  \<open>document_sites D\<close> lists the secret sites of \<open>D\<close> with their values, in the order
  in which \<open>extractMcpSecrets\<close> meets them: server after server, the headers of a
  server and then its client secret. \<open>record_secret\<close> is the call of \<open>setNestedValue\<close>
  made for one of them, so that \<open>secretOverrides\<close> is the fold of \<open>record_secret\<close> over
  the list.
\<close>

definition record_secret :: "string list \<times> jsvalue \<Rightarrow> jsvalue \<Rightarrow> jsvalue" where
  "record_secret site overrides = setNestedValue overrides (fst site) (snd site)"

definition header_sites :: "string \<Rightarrow> (string \<times> jsvalue) list \<Rightarrow> (string list \<times> jsvalue) list" where
  "header_sites serverName hs =
     map (\<lambda>kv. ([''mcp'', serverName, ''headers'', fst kv], snd kv))
       (filter (\<lambda>kv. isSecretString (snd kv)) hs)"

definition server_sites :: "string \<Rightarrow> jsvalue \<Rightarrow> (string list \<times> jsvalue) list" where
  "server_sites serverName serverConfig =
     (if isPlainObject (js_get serverConfig ''headers'')
      then header_sites serverName (entries (js_get serverConfig ''headers'')) else []) @
     (if isPlainObject (js_get serverConfig ''oauth'') \<and>
         isSecretString (js_get (js_get serverConfig ''oauth'') ''clientSecret'')
      then [([''mcp'', serverName, ''oauth'', ''clientSecret''],
             js_get (js_get serverConfig ''oauth'') ''clientSecret'')]
      else [])"

definition mcp_sites :: "(string \<times> jsvalue) list \<Rightarrow> (string list \<times> jsvalue) list" where
  "mcp_sites servers =
     concat (map (\<lambda>kv. if isPlainObject (snd kv) then server_sites (fst kv) (snd kv) else []) servers)"

definition document_sites :: "jsvalue \<Rightarrow> (string list \<times> jsvalue) list" where
  "document_sites D =
     (if isPlainObject (js_get D ''mcp'') then mcp_sites (entries (js_get D ''mcp'')) else [])"

text \<open>
  \<open>plain_child ps k\<close> is the object \<open>setNestedValue\<close> goes down into at the key \<open>k\<close> of
  an object with the properties \<open>ps\<close>: the property when it is a plain object, a fresh
  empty object otherwise. \<open>good_tree\<close>: a plain object that is JSON-compatible.
\<close>

definition plain_child :: "(string \<times> jsvalue) list \<Rightarrow> string \<Rightarrow> jsvalue" where
  "plain_child ps k =
     (case map_of ps k of Some c \<Rightarrow> if isPlainObject c then c else Obj [] | None \<Rightarrow> Obj [])"

definition good_tree :: "jsvalue \<Rightarrow> bool" where
  "good_tree T = (json_compatible T \<and> isPlainObject T)"

subsection \<open>Sample documents\<close>

text \<open>The documents of \<open>mcp-secrets.test.ts\<close> and a few more, with the results the code gives.\<close>

definition doc_context7 :: jsvalue where
  "doc_context7 =
     Obj [(''mcp'', Obj [(''context7'',
       Obj [(''type'', JStr ''remote''),
            (''url'', JStr ''https://mcp.context7.com/mcp''),
            (''headers'', Obj [(''CONTEXT7_API_KEY'', JStr ''ctx7-secret'')])])])]"

definition result_context7 :: McpSecretExtraction where
  "result_context7 =
     \<lparr>sanitizedConfig =
        Obj [(''mcp'', Obj [(''context7'',
          Obj [(''type'', JStr ''remote''),
               (''url'', JStr ''https://mcp.context7.com/mcp''),
               (''headers'', Obj [(''CONTEXT7_API_KEY'', JStr ''{env:CONTEXT7_API_KEY}'')])])])],
      secretOverrides =
        Obj [(''mcp'', Obj [(''context7'',
          Obj [(''headers'', Obj [(''CONTEXT7_API_KEY'', JStr ''ctx7-secret'')])])])]\<rparr>"

definition doc_placeholders :: jsvalue where
  "doc_placeholders =
     Obj [(''mcp'', Obj [(''context7'',
       Obj [(''headers'', Obj [(''CONTEXT7_API_KEY'', JStr ''{env:CONTEXT7_API_KEY}'')])])])]"

definition doc_github :: jsvalue where
  "doc_github =
     Obj [(''mcp'', Obj [(''github'',
       Obj [(''headers'', Obj [(''Authorization'', JStr ''Bearer ghp_example'')]),
            (''oauth'', Obj [(''clientId'', JStr ''public''),
                             (''clientSecret'', JStr ''super-secret'')])])])]"

definition result_github :: McpSecretExtraction where
  "result_github =
     \<lparr>sanitizedConfig =
        Obj [(''mcp'', Obj [(''github'',
          Obj [(''headers'',
                 Obj [(''Authorization'', JStr ''Bearer {env:OPENCODE_MCP_GITHUB_AUTHORIZATION}'')]),
               (''oauth'',
                 Obj [(''clientId'', JStr ''public''),
                      (''clientSecret'', JStr ''{env:OPENCODE_MCP_GITHUB_OAUTH_CLIENT_SECRET}'')])])])],
      secretOverrides =
        Obj [(''mcp'', Obj [(''github'',
          Obj [(''headers'', Obj [(''Authorization'', JStr ''Bearer ghp_example'')]),
               (''oauth'', Obj [(''clientSecret'', JStr ''super-secret'')])])])]\<rparr>"

definition doc_embedded :: jsvalue where
  "doc_embedded =
     Obj [(''mcp'', Obj [(''s'',
       Obj [(''headers'', Obj [(''X-Key'', JStr ''secret-{env:X}-more'')])])])]"

definition overrides_a :: jsvalue where
  "overrides_a = Obj [(''mcp'', Obj [(''a'', Obj [(''headers'', Obj [(''X'', JStr ''1'')])])])]"

definition strip_base :: jsvalue where
  "strip_base =
     Obj [(''a'', JStr ''1''), (''b'', Obj [(''x'', JNum 1), (''y'', JNum 2)]), (''c'', JNum 3)]"

definition strip_remove :: jsvalue where
  "strip_remove =
     Obj [(''a'', Obj [(''x'', JNum 1)]), (''b'', Obj [(''x'', JUndefined)]), (''d'', JNum 0)]"

definition doc_proto_header :: jsvalue where
  "doc_proto_header =
     Obj [(''mcp'', Obj [(''s'', Obj [(''headers'', Obj [(''__proto__'', JStr ''secret'')])])])]"

definition doc_proto_server :: jsvalue where
  "doc_proto_server =
     Obj [(''mcp'', Obj [(''__proto__'',
       Obj [(''headers'', Obj [(''Authorization'', JStr ''Bearer abc'')])])])]"

section \<open>Objects, clones and association lists\<close>

lemma json_clone_id:
  "json_compatible v \<Longrightarrow> json_clone v = Inr (Some v)"
  "list_all json_compatible xs \<Longrightarrow> json_clone_elements xs = Inr xs"
  "list_all (\<lambda>kv. json_compatible (snd kv)) ps \<Longrightarrow> json_clone_props ps = Inr ps"
  by (induction v and xs and ps rule: json_clone_json_clone_elements_json_clone_props.induct) auto

lemma cloneConfig_id: "json_compatible v \<Longrightarrow> cloneConfig v = Inr v"
  by (simp add: cloneConfig_def json_clone_id)

lemma js_get_Obj:
  "js_get (Obj ps) k =
     (case map_of ps k of Some v \<Rightarrow> v
      | None \<Rightarrow> if k = ''__proto__'' then JObjectPrototype
                else if k \<in> set object_prototype_methods then JFunction else JUndefined)"
  by (simp split: option.splits)

lemma js_set_own: "map_of ps k \<noteq> None \<Longrightarrow> js_set (JObj pr ps) k v = JObj pr (AList.update k v ps)"
  by auto

lemma write_back_own: "map_of ps k \<noteq> None \<Longrightarrow> write_back (JObj pr ps) k v = JObj pr (AList.update k v ps)"
  by auto

declare js_get.simps [simp del] js_set.simps [simp del] write_back.simps [simp del]

lemma plain_js_get_Obj:
  "isPlainObject (js_get (Obj ps) k) \<longleftrightarrow> (\<exists>v. map_of ps k = Some v \<and> isPlainObject v)"
  by (auto simp: js_get_Obj split: option.splits)

section \<open>The sanitized document\<close>

text \<open>The iterations over headers and servers compute \<open>sanitize_at\<close>.\<close>

lemma update_mid:
  "k \<notin> fst ` set pre \<Longrightarrow> AList.update k v (pre @ (k, old) # rest) = pre @ (k, v) # rest"
  by (induction pre) auto

lemma alist_eqI:
  "distinct (map fst xs) \<Longrightarrow> map fst xs = map fst ys \<Longrightarrow> (\<And>k. k \<in> fst ` set xs \<Longrightarrow> map_of xs k = map_of ys k) \<Longrightarrow> xs = ys"
proof (induction xs arbitrary: ys)
  case Nil
  then show ?case by simp
next
  case (Cons x xs)
  then obtain y ys' where ys: "ys = y # ys'" by (cases ys) auto
  from Cons.prems ys have k: "fst x = fst y" and ks: "map fst xs = map fst ys'" by auto
  from Cons.prems(3)[of "fst x"] ys k have "snd x = snd y" by simp
  with k have xy: "x = y" by (simp add: prod_eq_iff)
  have "xs = ys'"
  proof (rule Cons.IH)
    show "distinct (map fst xs)" using Cons.prems by simp
    show "map fst xs = map fst ys'" by (rule ks)
    fix k assume kin: "k \<in> fst ` set xs"
    with Cons.prems(1) have "k \<noteq> fst x" by (auto simp: image_iff)
    with Cons.prems(3)[of k] kin ys xy show "map_of xs k = map_of ys' k" by auto
  qed
  with xy ys show ?case by simp
qed

lemma map_of_map_values:
  "map_of (map (\<lambda>kv. (fst kv, f (fst kv) (snd kv))) ps) k = map_option (f k) (map_of ps k)"
  by (induction ps) auto

lemma sanitize_at_leaf:
  "secret_path p \<Longrightarrow> sanitize_at p v = (if isSecretString v then JStr (placeholder_for p v) else v)"
  by (subst sanitize_at.simps) simp

lemma sanitize_at_container:
  "\<not> secret_path p \<Longrightarrow> container_path p \<Longrightarrow>
   sanitize_at p (Obj ps) = Obj (map (\<lambda>kv. (fst kv, sanitize_at (p @ [fst kv]) (snd kv))) ps)"
  by (subst sanitize_at.simps) simp

lemma sanitize_at_other:
  "\<not> secret_path p \<Longrightarrow> \<not> (container_path p \<and> isPlainObject v) \<Longrightarrow> sanitize_at p v = v"
  by (subst sanitize_at.simps) auto

lemma extract_headers_fst:
  "distinct (map fst (pre @ hs)) \<Longrightarrow>
   fst (extract_headers s hs (JObj pr (pre @ hs), ovr)) =
     JObj pr (pre @ map (\<lambda>kv. (fst kv, sanitize_at [''mcp'', s, ''headers'', fst kv] (snd kv))) hs)"
proof (induction hs arbitrary: pre ovr)
  case Nil
  then show ?case by simp
next
  case (Cons kv hs)
  obtain h v where kv: "kv = (h, v)" by (cases kv)
  have sp: "secret_path [''mcp'', s, ''headers'', h]" by (simp add: secret_path_def)
  show ?case
  proof (cases "isSecretString v")
    case False
    have "distinct (map fst ((pre @ [(h, v)]) @ hs))" using Cons.prems kv by simp
    from Cons.IH[OF this, of ovr] False kv sp show ?thesis
      by (simp add: sanitize_at_leaf)
  next
    case True
    let ?p = "JStr (buildHeaderPlaceholder (js_String v) (buildHeaderEnvVar s h) h)"
    have notin: "h \<notin> fst ` set pre" using Cons.prems kv by auto
    have set: "js_set (JObj pr (pre @ (h, v) # hs)) h ?p = JObj pr ((pre @ [(h, ?p)]) @ hs)"
      using notin by (subst js_set_own) (auto simp: update_mid)
    have "distinct (map fst ((pre @ [(h, ?p)]) @ hs))" using Cons.prems kv by simp
    from Cons.IH[OF this] True kv sp set show ?thesis
      by (simp add: sanitize_at_leaf Let_def)
  qed
qed

lemma sanitize_at_server_key:
  "sanitize_at [''mcp'', s, k] v =
     (if (k = ''headers'' \<or> k = ''oauth'') \<and> isPlainObject v
      then Obj (map (\<lambda>kv. (fst kv, sanitize_at [''mcp'', s, k, fst kv] (snd kv))) (entries v))
      else v)"
  by (subst sanitize_at.simps) (auto simp: secret_path_def)

lemma sanitize_at_oauth_key:
  "sanitize_at [''mcp'', s, ''oauth'', k] v =
     (if k = ''clientSecret'' \<and> isSecretString v
      then JStr (''{env:'' @ buildEnvVar s ''OAUTH_CLIENT_SECRET'' @ ''}'') else v)"
  by (subst sanitize_at.simps) (auto simp: secret_path_def)

lemma update_as_map:
  "distinct (map fst ps) \<Longrightarrow> map_of ps k \<noteq> None \<Longrightarrow>
   AList.update k w ps = map (\<lambda>kv. (fst kv, if fst kv = k then w else snd kv)) ps"
proof (induction ps)
  case Nil
  then show ?case by simp
next
  case (Cons a ps)
  show ?case
  proof (cases "fst a = k")
    case True
    then have "k \<notin> fst ` set ps" using Cons.prems(1) by auto
    then have "map (\<lambda>kv. (fst kv, if fst kv = k then w else snd kv)) ps = ps"
      by (intro map_idI) (auto simp: image_iff)
    with True show ?thesis by (cases a) simp
  next
    case False
    with Cons show ?thesis by (cases a) auto
  qed
qed

lemma map_values_id:
  "(\<And>k v. (k, v) \<in> set ps \<Longrightarrow> f k v = v) \<Longrightarrow> map (\<lambda>kv. (fst kv, f (fst kv) (snd kv))) ps = ps"
  by (induction ps) auto

lemma secret_js_get:
  "isSecretString (js_get (Obj os) k) \<Longrightarrow> map_of os k = Some (js_get (Obj os) k)"
  by (auto simp: js_get_Obj split: option.splits if_splits)

lemma sanitized_headers_object:
  assumes "distinct (map fst hs)"
  shows "fst (extract_headers s hs (Obj hs, ovr)) = sanitize_at [''mcp'', s, ''headers''] (Obj hs)"
  using extract_headers_fst[of "[]" hs s JObjectPrototype ovr] assms
  by (simp add: sanitize_at_server_key)

lemma sanitized_oauth_object:
  assumes d: "distinct (map fst os)"
  shows "(if isSecretString (js_get (Obj os) ''clientSecret'')
          then js_set (Obj os) ''clientSecret'' (JStr (''{env:'' @ buildEnvVar s ''OAUTH_CLIENT_SECRET'' @ ''}''))
          else Obj os) = sanitize_at [''mcp'', s, ''oauth''] (Obj os)"
proof (cases "isSecretString (js_get (Obj os) ''clientSecret'')")
  case True
  then have m: "map_of os ''clientSecret'' = Some (js_get (Obj os) ''clientSecret'')"
    by (rule secret_js_get)
  have "\<And>kv. kv \<in> set os \<Longrightarrow> fst kv = ''clientSecret'' \<Longrightarrow> snd kv = js_get (Obj os) ''clientSecret''"
    using d m by (metis map_of_is_SomeI option.inject prod.collapse)
  with True m d show ?thesis
    by (auto simp: sanitize_at_server_key sanitize_at_oauth_key update_as_map js_set_own)
next
  case False
  have "\<And>kv. kv \<in> set os \<Longrightarrow> fst kv = ''clientSecret'' \<Longrightarrow> \<not> isSecretString (snd kv)"
  proof -
    fix kv assume "kv \<in> set os" "fst kv = ''clientSecret''"
    then have "map_of os ''clientSecret'' = Some (snd kv)"
      using d by (metis map_of_is_SomeI prod.collapse)
    with False show "\<not> isSecretString (snd kv)" by (simp add: js_get_Obj)
  qed
  then have "map (\<lambda>kv. (fst kv, sanitize_at [''mcp'', s, ''oauth'', fst kv] (snd kv))) os = os"
    by (intro map_idI) (auto simp: sanitize_at_oauth_key)
  with False show ?thesis by (simp add: sanitize_at_server_key)
qed

lemma write_back_as_map:
  assumes "distinct (map fst ps)" "map_of ps k = Some v"
  shows "write_back (Obj ps) k w = Obj (map (\<lambda>kv. (fst kv, if fst kv = k then w else snd kv)) ps)"
  using assms by (simp add: update_as_map write_back_own)

lemma map_of_in_set: "distinct (map fst ps) \<Longrightarrow> kv \<in> set ps \<Longrightarrow> map_of ps (fst kv) = Some (snd kv)"
  by (metis map_of_is_SomeI prod.collapse)

lemma extract_server_headers_fst:
  assumes d: "distinct (map fst ps)"
    and dh: "\<And>v. map_of ps ''headers'' = Some v \<Longrightarrow> distinct (map fst (entries v))"
  shows "fst (extract_server_headers s (Obj ps) ovr) =
     Obj (map (\<lambda>kv. (fst kv, if fst kv = ''headers'' then sanitize_at [''mcp'', s, ''headers''] (snd kv) else snd kv)) ps)"
    (is "_ = Obj ?ps1")
proof (cases "isPlainObject (js_get (Obj ps) ''headers'')")
  case True
  then obtain hv where hv: "map_of ps ''headers'' = Some hv" "isPlainObject hv"
    by (auto simp: plain_js_get_Obj)
  then obtain hs where hs: "hv = Obj hs" by (cases hv) auto
  have g: "js_get (Obj ps) ''headers'' = Obj hs" using hv hs by (simp add: js_get_Obj)
  have "distinct (map fst hs)" using dh[OF hv(1)] hs by simp
  from sanitized_headers_object[OF this, of s ovr]
  have f: "fst (extract_headers s hs (Obj hs, ovr)) = sanitize_at [''mcp'', s, ''headers''] (Obj hs)" .
  have "\<And>kv. kv \<in> set ps \<Longrightarrow> fst kv = ''headers'' \<Longrightarrow> snd kv = Obj hs"
    using map_of_in_set[OF d] hv hs by fastforce
  then have "?ps1 = map (\<lambda>kv. (fst kv, if fst kv = ''headers'' then sanitize_at [''mcp'', s, ''headers''] (Obj hs) else snd kv)) ps"
    by (intro map_cong) auto
  with True g f hv d show ?thesis
    by (simp add: extract_server_headers_def update_as_map write_back_own case_prod_beta Let_def)
next
  case False
  have "\<And>kv. kv \<in> set ps \<Longrightarrow> fst kv = ''headers'' \<Longrightarrow> \<not> isPlainObject (snd kv)"
    using map_of_in_set[OF d] False by (fastforce simp: plain_js_get_Obj)
  then have "?ps1 = ps"
    by (intro map_idI) (auto simp: sanitize_at_server_key)
  with False show ?thesis by (simp add: extract_server_headers_def Let_def)
qed

lemma extract_server_oauth_fst:
  assumes d: "distinct (map fst ps)"
    and do: "\<And>v. map_of ps ''oauth'' = Some v \<Longrightarrow> distinct (map fst (entries v))"
  shows "fst (extract_server_oauth s (Obj ps) ovr) =
     Obj (map (\<lambda>kv. (fst kv, if fst kv = ''oauth'' then sanitize_at [''mcp'', s, ''oauth''] (snd kv) else snd kv)) ps)"
    (is "_ = Obj ?ps2")
proof (cases "isPlainObject (js_get (Obj ps) ''oauth'')")
  case True
  then obtain ov where ov: "map_of ps ''oauth'' = Some ov" "isPlainObject ov"
    by (auto simp: plain_js_get_Obj)
  then obtain os where os: "ov = Obj os" by (cases ov) auto
  have g: "js_get (Obj ps) ''oauth'' = Obj os" using ov os by (simp add: js_get_Obj)
  have dos: "distinct (map fst os)" using do[of ov] ov os by simp
  have "\<And>kv. kv \<in> set ps \<Longrightarrow> fst kv = ''oauth'' \<Longrightarrow> snd kv = Obj os"
    using map_of_in_set[OF d] ov os by fastforce
  then have p2: "?ps2 = map (\<lambda>kv. (fst kv, if fst kv = ''oauth'' then sanitize_at [''mcp'', s, ''oauth''] (Obj os) else snd kv)) ps"
    by (intro map_cong) auto
  show ?thesis
  proof (cases "isSecretString (js_get (Obj os) ''clientSecret'')")
    case sec: True
    with sanitized_oauth_object[OF dos, of s]
    have "js_set (Obj os) ''clientSecret'' (JStr (''{env:'' @ buildEnvVar s ''OAUTH_CLIENT_SECRET'' @ ''}'')) = sanitize_at [''mcp'', s, ''oauth''] (Obj os)"
      by simp
    with True g sec ov d p2 show ?thesis
      by (simp add: extract_server_oauth_def Let_def update_as_map write_back_own)
  next
    case nsec: False
    with sanitized_oauth_object[OF dos, of s]
    have "sanitize_at [''mcp'', s, ''oauth''] (Obj os) = Obj os" by simp
    with p2 have "?ps2 = map (\<lambda>kv. (fst kv, if fst kv = ''oauth'' then Obj os else snd kv)) ps" by simp
    also have "\<dots> = ps"
      using map_of_in_set[OF d] ov os by (intro map_idI) (fastforce simp: prod_eq_iff)
    finally have "?ps2 = ps" .
    with True g nsec show ?thesis
      by (simp add: extract_server_oauth_def Let_def)
  qed
next
  case False
  have "\<And>kv. kv \<in> set ps \<Longrightarrow> fst kv = ''oauth'' \<Longrightarrow> \<not> isPlainObject (snd kv)"
    using map_of_in_set[OF d] False by (fastforce simp: plain_js_get_Obj)
  then have "?ps2 = ps"
    by (intro map_idI) (auto simp: sanitize_at_server_key)
  with False show ?thesis
    by (simp add: extract_server_oauth_def Let_def)
qed

lemma extract_server_fst:
  assumes d: "distinct (map fst ps)"
    and dh: "\<And>v. map_of ps ''headers'' = Some v \<Longrightarrow> distinct (map fst (entries v))"
    and do: "\<And>v. map_of ps ''oauth'' = Some v \<Longrightarrow> distinct (map fst (entries v))"
  shows "fst (extract_server s (Obj ps) ovr) =
     Obj (map (\<lambda>kv. (fst kv, sanitize_at [''mcp'', s, fst kv] (snd kv))) ps)"
proof -
  define ps1 where "ps1 = map (\<lambda>kv. (fst kv, if fst kv = ''headers'' then sanitize_at [''mcp'', s, ''headers''] (snd kv) else snd kv)) ps"
  obtain sc1 ovr1 where st: "extract_server_headers s (Obj ps) ovr = (sc1, ovr1)"
    by (cases "extract_server_headers s (Obj ps) ovr")
  with extract_server_headers_fst[OF d dh, of s ovr] have s1: "sc1 = Obj ps1"
    by (simp add: ps1_def)
  have d1: "distinct (map fst ps1)" using d by (simp add: ps1_def comp_def)
  have m1: "map_of ps1 ''oauth'' = map_of ps ''oauth''"
    unfolding ps1_def by (simp add: map_of_map_values[where f="\<lambda>k v. if k = ''headers'' then sanitize_at [''mcp'', s, ''headers''] v else v"] option.map_ident_strong)
  have "fst (extract_server_oauth s (Obj ps1) ovr1) =
     Obj (map (\<lambda>kv. (fst kv, if fst kv = ''oauth'' then sanitize_at [''mcp'', s, ''oauth''] (snd kv) else snd kv)) ps1)"
    by (rule extract_server_oauth_fst[OF d1]) (use do m1 in auto)
  also have "map (\<lambda>kv. (fst kv, if fst kv = ''oauth'' then sanitize_at [''mcp'', s, ''oauth''] (snd kv) else snd kv)) ps1
      = map (\<lambda>kv. (fst kv, sanitize_at [''mcp'', s, fst kv] (snd kv))) ps"
    unfolding ps1_def
    by (auto simp: sanitize_at_server_key[of s "''headers''"] sanitize_at_server_key[of s "''oauth''"] sanitize_at_server_key)
  finally show ?thesis using st s1 by (simp add: extract_server_def)
qed

lemma json_compatible_distinct: "json_compatible v \<Longrightarrow> distinct (map fst (entries v))"
  by (cases v) auto

lemma json_compatible_lookup:
  "json_compatible (JObj pr ps) \<Longrightarrow> map_of ps k = Some v \<Longrightarrow> json_compatible v"
  by (auto simp: list_all_iff dest!: map_of_SomeD)

lemma json_compatible_member:
  "json_compatible (JObj pr ps) \<Longrightarrow> kv \<in> set ps \<Longrightarrow> json_compatible (snd kv)"
  by (auto simp: list_all_iff)

lemma json_compatible_plain: "json_compatible (JObj pr ps) \<Longrightarrow> pr = JObjectPrototype"
  by simp

lemma sanitize_at_mcp_key:
  "sanitize_at [''mcp'', s] v =
     (if isPlainObject v
      then Obj (map (\<lambda>kv. (fst kv, sanitize_at [''mcp'', s, fst kv] (snd kv))) (entries v))
      else v)"
  by (subst sanitize_at.simps) (auto simp: secret_path_def)

lemma sanitize_at_top_key:
  "sanitize_at [k] v =
     (if k = ''mcp'' \<and> isPlainObject v
      then Obj (map (\<lambda>kv. (fst kv, sanitize_at [''mcp'', fst kv] (snd kv))) (entries v))
      else v)"
  by (subst sanitize_at.simps) (auto simp: secret_path_def)

lemma sanitize_at_root:
  "sanitize_at [] v =
     (if isPlainObject v
      then Obj (map (\<lambda>kv. (fst kv, sanitize_at [fst kv] (snd kv))) (entries v))
      else v)"
  by (subst sanitize_at.simps) (auto simp: secret_path_def)

lemma extract_server_sanitize:
  assumes "json_compatible sc" "isPlainObject sc"
  shows "fst (extract_server s sc ovr) = sanitize_at [''mcp'', s] sc"
proof -
  from assms obtain ps where sc: "sc = Obj ps" by (cases sc) auto
  have "fst (extract_server s (Obj ps) ovr) =
     Obj (map (\<lambda>kv. (fst kv, sanitize_at [''mcp'', s, fst kv] (snd kv))) ps)"
  proof (rule extract_server_fst)
    show "distinct (map fst ps)" using assms sc by simp
    show "\<And>v. map_of ps ''headers'' = Some v \<Longrightarrow> distinct (map fst (entries v))"
      using assms(1) sc json_compatible_lookup json_compatible_distinct by blast
    show "\<And>v. map_of ps ''oauth'' = Some v \<Longrightarrow> distinct (map fst (entries v))"
      using assms(1) sc json_compatible_lookup json_compatible_distinct by blast
  qed
  with sc show ?thesis by (simp add: sanitize_at_mcp_key)
qed

lemma extract_servers_fst:
  "distinct (map fst (pre @ ms)) \<Longrightarrow> (\<And>kv. kv \<in> set ms \<Longrightarrow> json_compatible (snd kv)) \<Longrightarrow>
   fst (extract_servers ms (JObj pr (pre @ ms), ovr)) =
     JObj pr (pre @ map (\<lambda>kv. (fst kv, sanitize_at [''mcp'', fst kv] (snd kv))) ms)"
proof (induction ms arbitrary: pre ovr)
  case Nil
  then show ?case by simp
next
  case (Cons kv ms)
  obtain s sc where kv: "kv = (s, sc)" by (cases kv)
  have jc: "json_compatible sc" using Cons.prems(2)[of kv] kv by simp
  have rest: "\<And>kv. kv \<in> set ms \<Longrightarrow> json_compatible (snd kv)" using Cons.prems(2) by simp
  show ?case
  proof (cases "isPlainObject sc")
    case False
    have "distinct (map fst ((pre @ [(s, sc)]) @ ms))" using Cons.prems kv by simp
    from Cons.IH[OF this rest, of ovr] False kv show ?thesis
      by (simp add: sanitize_at_mcp_key)
  next
    case True
    let ?sc' = "sanitize_at [''mcp'', s] sc"
    obtain sc1 ovr1 where ex: "extract_server s sc ovr = (sc1, ovr1)" by (cases "extract_server s sc ovr")
    with extract_server_sanitize[OF jc True, of s ovr] have sc1: "sc1 = ?sc'" by simp
    have notin: "s \<notin> fst ` set pre" using Cons.prems kv by auto
    have wb: "write_back (JObj pr (pre @ (s, sc) # ms)) s ?sc' = JObj pr ((pre @ [(s, ?sc')]) @ ms)"
      using notin by (subst write_back_own) (auto simp: update_mid)
    have "distinct (map fst ((pre @ [(s, ?sc')]) @ ms))" using Cons.prems kv by simp
    from Cons.IH[OF this rest] True kv ex sc1 wb show ?thesis
      by simp
  qed
qed

lemma extractMcpSecrets_sanitized:
  assumes jc: "json_compatible D" and ex: "extractMcpSecrets D = Inr r"
  shows "sanitizedConfig r = sanitize_at [] D"
proof (cases "isPlainObject D")
  case False
  with jc have "\<not> isPlainObject (js_get D ''mcp'')"
    by (cases D) (auto simp: js_get.simps)
  with ex jc False show ?thesis
    by (auto simp: extractMcpSecrets_def cloneConfig_id sanitize_at_root Let_def split: if_splits)
next
  case True
  then obtain ps where D: "D = Obj ps" by (cases D) auto
  have d: "distinct (map fst ps)" using jc D by simp
  show ?thesis
  proof (cases "isPlainObject (js_get D ''mcp'')")
    case False
    have "\<And>kv. kv \<in> set ps \<Longrightarrow> fst kv = ''mcp'' \<Longrightarrow> \<not> isPlainObject (snd kv)"
      using map_of_in_set[OF d] False D by (fastforce simp: plain_js_get_Obj)
    then have "map (\<lambda>kv. (fst kv, sanitize_at [fst kv] (snd kv))) ps = ps"
      by (intro map_idI) (auto simp: sanitize_at_top_key)
    with ex jc False D show ?thesis
      by (auto simp: extractMcpSecrets_def cloneConfig_id sanitize_at_root Let_def split: if_splits)
  next
    case plain: True
    then obtain mv where mv: "map_of ps ''mcp'' = Some mv" "isPlainObject mv"
      using D by (auto simp: plain_js_get_Obj)
    then obtain ms where ms: "mv = Obj ms" by (cases mv) auto
    have g: "js_get D ''mcp'' = Obj ms" using mv ms D by (simp add: js_get_Obj)
    have jm: "json_compatible (Obj ms)" using json_compatible_lookup[of _ ps "''mcp''" mv] jc D mv ms by simp
    have "fst (extract_servers ms (JObj JObjectPrototype ([] @ ms), Obj [])) =
       JObj JObjectPrototype ([] @ map (\<lambda>kv. (fst kv, sanitize_at [''mcp'', fst kv] (snd kv))) ms)"
      by (rule extract_servers_fst) (use jm in \<open>auto simp: list_all_iff\<close>)
    then have f: "fst (extract_servers ms (Obj ms, Obj [])) = sanitize_at [''mcp''] (Obj ms)"
      by (simp add: sanitize_at_top_key)
    have "\<And>kv. kv \<in> set ps \<Longrightarrow> fst kv = ''mcp'' \<Longrightarrow> snd kv = Obj ms"
      using map_of_in_set[OF d] mv ms by fastforce
    then have "map (\<lambda>kv. (fst kv, sanitize_at [fst kv] (snd kv))) ps
        = map (\<lambda>kv. (fst kv, if fst kv = ''mcp'' then sanitize_at [''mcp''] (Obj ms) else snd kv)) ps"
      by (intro map_cong) (auto simp: sanitize_at_top_key)
    then have san: "sanitize_at [] D =
        Obj (map (\<lambda>kv. (fst kv, if fst kv = ''mcp'' then sanitize_at [''mcp''] (Obj ms) else snd kv)) ps)"
      using D by (simp add: sanitize_at_root)
    have "sanitizedConfig r = write_back D ''mcp'' (fst (extract_servers ms (Obj ms, Obj [])))"
      using ex jc plain g
      by (auto simp: extractMcpSecrets_def cloneConfig_id case_prod_beta Let_def split: if_splits)
    also have "\<dots> = Obj (AList.update ''mcp'' (sanitize_at [''mcp''] (Obj ms)) ps)"
      using f mv D by (simp add: write_back_own)
    finally show ?thesis using san mv d by (simp add: update_as_map)
  qed
qed

lemma secret_path_length: "secret_path p \<Longrightarrow> length p = 4"
  by (auto simp: secret_path_def elim!: header_path.elims client_secret_path.elims)

lemma secret_path_strict_prefix:
  assumes "secret_path (pre @ k # p)"
  shows "container_path pre \<and> \<not> secret_path pre"
proof -
  from assms have l: "length (pre @ k # p) = 4" by (rule secret_path_length)
  then have np: "\<not> secret_path pre" using secret_path_length[of pre] by auto
  from l have "length pre \<le> 3" by simp
  then consider "pre = []" | a where "pre = [a]" | a b where "pre = [a, b]" | a b c where "pre = [a, b, c]"
    by (cases pre rule: list.exhaust; simp; (rename_tac a t, case_tac t; simp; (rename_tac b u, case_tac u; simp)))
  then have "container_path pre"
  proof cases
    case 1 then show ?thesis by simp
  next
    case 2 with assms l show ?thesis
      by (cases p; simp; (rename_tac x t, case_tac t; simp; auto simp: secret_path_def))
  next
    case 3 with assms l show ?thesis
      by (cases p; simp; (auto simp: secret_path_def))
  next
    case 4 with assms l show ?thesis
      by (cases p; simp; (auto simp: secret_path_def))
  qed
  with np show ?thesis by simp
qed

lemma get_path_Obj_Cons:
  "get_path (JObj pr ps) (k # p) = (case map_of ps k of None \<Rightarrow> None | Some c \<Rightarrow> get_path c p)"
  by simp

lemma sanitize_at_id:
  "json_compatible v \<Longrightarrow>
   (\<And>q w. secret_path (pre @ q) \<Longrightarrow> get_path v q = Some w \<Longrightarrow> \<not> isSecretString w) \<Longrightarrow>
   sanitize_at pre v = v"
proof (induction pre v rule: sanitize_at.induct)
  case (1 pre v)
  show ?case
  proof (cases "secret_path pre")
    case True
    with "1.prems"(2)[of "[]" v] show ?thesis by (simp add: sanitize_at_leaf)
  next
    case nsp: False
    show ?thesis
    proof (cases "container_path pre \<and> isPlainObject v")
      case False
      with nsp show ?thesis by (simp add: sanitize_at_other)
    next
      case True
      then obtain ps where v: "v = Obj ps" by (cases v) auto
      have d: "distinct (map fst ps)" using "1.prems"(1) v by simp
      have "map (\<lambda>kv. (fst kv, sanitize_at (pre @ [fst kv]) (snd kv))) ps = ps"
      proof (intro map_idI)
        fix kv assume kv: "kv \<in> set ps"
        have m: "map_of ps (fst kv) = Some (snd kv)" by (rule map_of_in_set[OF d kv])
        have "sanitize_at (pre @ [fst kv]) (snd kv) = snd kv"
        proof (rule "1.IH"[OF nsp True])
          show "kv \<in> set (entries v)" using kv v by simp
          show "json_compatible (snd kv)" using json_compatible_member "1.prems"(1) v kv by blast
          fix q w
          assume "secret_path ((pre @ [fst kv]) @ q)" "get_path (snd kv) q = Some w"
          then show "\<not> isSecretString w"
            using "1.prems"(2)[of "fst kv # q" w] m v by simp
        qed
        then show "(fst kv, sanitize_at (pre @ [fst kv]) (snd kv)) = kv" by (simp add: prod_eq_iff)
      qed
      with nsp True v show ?thesis by (simp add: sanitize_at_container)
    qed
  qed
qed

lemma sanitize_at_frame:
  "json_compatible v \<Longrightarrow>
   (\<And>q w. prefix p q \<Longrightarrow> secret_path (pre @ q) \<Longrightarrow> get_path v q = Some w \<Longrightarrow> \<not> isSecretString w) \<Longrightarrow>
   get_path (sanitize_at pre v) p = get_path v p"
proof (induction p arbitrary: pre v)
  case Nil
  have "sanitize_at pre v = v"
    by (rule sanitize_at_id[OF Nil.prems(1)]) (use Nil.prems(2) in auto)
  then show ?case by simp
next
  case (Cons k p)
  show ?case
  proof (cases "secret_path pre")
    case True
    then show ?thesis by (cases v) (auto simp: sanitize_at_leaf)
  next
    case nsp: False
    show ?thesis
    proof (cases "container_path pre \<and> isPlainObject v")
      case False
      with nsp show ?thesis by (simp add: sanitize_at_other)
    next
      case True
      then obtain ps where v: "v = Obj ps" by (cases v) auto
      show ?thesis
      proof (cases "map_of ps k")
        case None
        with nsp True v show ?thesis
          by (simp add: sanitize_at_container map_of_map_values[where f="\<lambda>k c. sanitize_at (pre @ [k]) c"])
      next
        case (Some c)
        have "get_path (sanitize_at (pre @ [k]) c) p = get_path c p"
        proof (rule Cons.IH)
          show "json_compatible c" using json_compatible_lookup Cons.prems(1) v Some by blast
          fix q w
          assume "prefix p q" "secret_path ((pre @ [k]) @ q)" "get_path c q = Some w"
          then show "\<not> isSecretString w"
            using Cons.prems(2)[of "k # q" w] v Some by simp
        qed
        with nsp True v Some show ?thesis
          by (simp add: sanitize_at_container map_of_map_values[where f="\<lambda>k c. sanitize_at (pre @ [k]) c"])
      qed
    qed
  qed
qed

lemma sanitize_at_secret:
  "json_compatible v \<Longrightarrow> secret_path (pre @ p) \<Longrightarrow> get_path v p = Some w \<Longrightarrow>
   get_path (sanitize_at pre v) p =
     Some (if isSecretString w then JStr (placeholder_for (pre @ p) w) else w)"
proof (induction p arbitrary: pre v)
  case Nil
  then show ?case by (simp add: sanitize_at_leaf)
next
  case (Cons k p)
  from secret_path_strict_prefix[OF Cons.prems(2)]
  have c: "container_path pre" and nsp: "\<not> secret_path pre" by auto
  from Cons.prems(3) obtain pr ps where v: "v = JObj pr ps" by (cases v) auto
  with Cons.prems(1) have pr: "pr = JObjectPrototype" by simp
  from Cons.prems(3) v obtain c' where m: "map_of ps k = Some c'" and g: "get_path c' p = Some w"
    by (auto split: option.splits)
  have "get_path (sanitize_at (pre @ [k]) c') p =
     Some (if isSecretString w then JStr (placeholder_for ((pre @ [k]) @ p) w) else w)"
  proof (rule Cons.IH)
    show "json_compatible c'" using json_compatible_lookup Cons.prems(1) v m by blast
    show "secret_path ((pre @ [k]) @ p)" using Cons.prems(2) by simp
    show "get_path c' p = Some w" by (rule g)
  qed
  with c nsp v pr m show ?case
    by (simp add: sanitize_at_container map_of_map_values[where f="\<lambda>k c. sanitize_at (pre @ [k]) c"])
qed

section \<open>The override tree\<close>

text \<open>What one call of \<open>setNestedValue\<close> can change, and the invariant of the iterations.\<close>

lemma reaches_proto_setter_key: "reaches_proto_setter v k \<Longrightarrow> k = ''__proto__''"
  by (induction v k rule: reaches_proto_setter.induct) auto

lemma chain_get_setter: "reaches_proto_setter v k \<Longrightarrow> chain_get p v k = p"
  by (induction v k rule: reaches_proto_setter.induct) auto

lemma js_set_props:
  "\<exists>pr'. js_set (JObj pr ps) k v = JObj pr' ps \<or> js_set (JObj pr ps) k v = JObj pr' (AList.update k v ps)"
  by (auto simp: js_set.simps)

lemma update_update_same: "AList.update k v (AList.update k w ps) = AList.update k v ps"
  by (induction ps) auto

lemma setNestedValue_step_props:
  "\<exists>pr' child.
      setNestedValue (JObj pr ps) (k # k' # path) v = JObj pr' ps \<or>
      (setNestedValue (JObj pr ps) (k # k' # path) v =
         JObj pr' (AList.update k (setNestedValue child (k' # path) v) ps) \<and>
       (child = Obj [] \<or> map_of ps k = Some child))"
proof (cases "map_of ps k")
  case (Some c)
  show ?thesis
  proof (cases "isPlainObject c")
    case True
    with Some have "setNestedValue (JObj pr ps) (k # k' # path) v =
       JObj pr (AList.update k (setNestedValue c (k' # path) v) ps)"
      by (simp add: js_get.simps write_back.simps)
    with Some show ?thesis by blast
  next
    case False
    with Some have "setNestedValue (JObj pr ps) (k # k' # path) v =
       JObj pr (AList.update k (setNestedValue (Obj []) (k' # path) v) ps)"
      by (simp add: js_get.simps js_set.simps write_back.simps update_conv' update_update_same)
    then show ?thesis by blast
  qed
next
  case None
  show ?thesis
  proof (cases "isPlainObject (chain_get pr pr k)")
    case True
    with None have "\<exists>pr'. setNestedValue (JObj pr ps) (k # k' # path) v = JObj pr' ps"
      by (simp add: js_get.simps write_back.simps)
    then show ?thesis by blast
  next
    case np: False
    show ?thesis
    proof (cases "reaches_proto_setter pr k")
      case True
      then have k: "k = ''__proto__''" by (rule reaches_proto_setter_key)
      with None np True have "\<exists>pr'. setNestedValue (JObj pr ps) (k # k' # path) v = JObj pr' ps"
        by (simp add: js_get.simps js_set.simps write_back.simps)
      then show ?thesis by blast
    next
      case False
      with None np have "setNestedValue (JObj pr ps) (k # k' # path) v =
         JObj pr (AList.update k (setNestedValue (Obj []) (k' # path) v) ps)"
        by (simp add: js_get.simps js_set.simps write_back.simps update_conv' update_update_same)
      then show ?thesis by blast
    qed
  qed
qed

lemma js_set_not_object: "\<not> is_JObj T \<Longrightarrow> js_set T k v = T"
  by (cases T) (auto simp: js_set.simps)

lemma write_back_not_object: "\<not> is_JObj T \<Longrightarrow> write_back T k v = T"
  by (cases T) (auto simp: write_back.simps)

lemma js_set_is_JObj: "is_JObj T \<Longrightarrow> is_JObj (js_set T k v)"
  by (cases T) (auto simp: js_set.simps)

lemma write_back_is_JObj: "is_JObj T \<Longrightarrow> is_JObj (write_back T k v)"
  by (cases T) (auto simp: write_back.simps split: option.splits)

lemma setNestedValue_not_object: "\<not> is_JObj T \<Longrightarrow> setNestedValue T p v = T"
  by (cases "(T, p, v)" rule: setNestedValue.cases)
     (auto simp: js_set_not_object write_back_not_object)

lemma setNestedValue_is_JObj: "is_JObj T \<Longrightarrow> is_JObj (setNestedValue T p v)"
  by (cases "(T, p, v)" rule: setNestedValue.cases)
     (auto simp: js_set_is_JObj write_back_is_JObj Let_def)

lemma get_path_Obj_Nil: "get_path (Obj []) q = Some w \<Longrightarrow> q = [] \<and> w = Obj []"
  by (cases q) auto

lemma js_set_paths:
  assumes "get_path (js_set T key (JStr s)) q = Some w"
  shows "(q = [key] \<and> w = JStr s) \<or> (q = [] \<and> is_JObj w) \<or> get_path T q = Some w"
proof (cases T)
  case (JObj pr ps)
  from js_set_props[of pr ps key "JStr s"] obtain pr' where
    alt: "js_set (JObj pr ps) key (JStr s) = JObj pr' ps \<or>
          js_set (JObj pr ps) key (JStr s) = JObj pr' (AList.update key (JStr s) ps)" by blast
  show ?thesis
  proof (cases q)
    case Nil
    with assms JObj alt show ?thesis by auto
  next
    case (Cons k2 r)
    from alt show ?thesis
    proof
      assume "js_set (JObj pr ps) key (JStr s) = JObj pr' ps"
      with assms JObj Cons show ?thesis by simp
    next
      assume u: "js_set (JObj pr ps) key (JStr s) = JObj pr' (AList.update key (JStr s) ps)"
      show ?thesis
      proof (cases "k2 = key")
        case True
        with assms JObj Cons u have "get_path (JStr s) r = Some w" by (simp add: update_conv')
        then have "r = [] \<and> w = JStr s" by (cases r) auto
        with True Cons show ?thesis by simp
      next
        case False
        with assms JObj Cons u show ?thesis by (simp add: update_conv')
      qed
    qed
  qed
qed (use assms in \<open>simp_all add: js_set.simps\<close>)

lemma setNestedValue_paths:
  "p \<noteq> [] \<Longrightarrow> get_path (setNestedValue T p (JStr s)) q = Some w \<Longrightarrow>
   (q = p \<and> w = JStr s) \<or> (strict_prefix q p \<and> is_JObj w) \<or> get_path T q = Some w"
proof (induction p arbitrary: T q w)
  case Nil
  then show ?case by simp
next
  case (Cons key p')
  show ?case
  proof (cases p')
    case Nil
    with Cons.prems(2) js_set_paths[of T key s q w] show ?thesis by auto
  next
    case p': (Cons key' path)
    show ?thesis
    proof (cases "is_JObj T")
      case False
      with Cons.prems(2) show ?thesis by (simp add: setNestedValue_not_object)
    next
      case True
      then obtain pr ps where JObj: "T = JObj pr ps" by (cases T) auto
      from setNestedValue_step_props[of pr ps key key' path "JStr s"] obtain pr' child where
        alt: "setNestedValue (JObj pr ps) (key # key' # path) (JStr s) = JObj pr' ps \<or>
          (setNestedValue (JObj pr ps) (key # key' # path) (JStr s) =
             JObj pr' (AList.update key (setNestedValue child (key' # path) (JStr s)) ps) \<and>
           (child = Obj [] \<or> map_of ps key = Some child))" by blast
      show ?thesis
      proof (cases q)
        case Nil
        with Cons.prems JObj alt p' show ?thesis by auto
      next
        case q: (Cons k2 r)
        from alt show ?thesis
        proof
          assume "setNestedValue (JObj pr ps) (key # key' # path) (JStr s) = JObj pr' ps"
          with Cons.prems JObj q p' show ?thesis by simp
        next
          assume u: "setNestedValue (JObj pr ps) (key # key' # path) (JStr s) =
             JObj pr' (AList.update key (setNestedValue child (key' # path) (JStr s)) ps) \<and>
           (child = Obj [] \<or> map_of ps key = Some child)"
          show ?thesis
          proof (cases "k2 = key")
            case False
            with Cons.prems JObj q u p' show ?thesis by (simp add: update_conv')
          next
            case True
            with Cons.prems JObj q u p'
            have g: "get_path (setNestedValue child p' (JStr s)) r = Some w"
              by (simp add: update_conv')
            have "(r = p' \<and> w = JStr s) \<or> (strict_prefix r p' \<and> is_JObj w)
                \<or> get_path child r = Some w"
              by (rule Cons.IH[OF _ g]) (simp add: p')
            then show ?thesis
            proof (elim disjE)
              assume "get_path child r = Some w"
              moreover from u have "child = Obj [] \<or> map_of ps key = Some child" by simp
              ultimately show ?thesis
                using True q JObj p' by (auto dest!: get_path_Obj_Nil)
            qed (use True q in auto)
          qed
        qed
      qed
    qed
  qed
qed

lemma overrides_inv_empty: "overrides_inv D (Obj [])"
  by (auto simp: overrides_inv_def dest!: get_path_Obj_Nil)

lemma overrides_inv_step:
  assumes inv: "overrides_inv D T" and sp: "secret_path p"
    and g: "get_path D p = Some v" and sec: "isSecretString v"
  shows "overrides_inv D (setNestedValue T p v)"
proof -
  from sec obtain s where v: "v = JStr s" by (cases v) auto
  from sp have l: "length p = 4" by (rule secret_path_length)
  then have ne: "p \<noteq> []" by auto
  have site: "secret_site D p" using sp g sec by (simp add: secret_site_def)
  show ?thesis
    unfolding overrides_inv_def
  proof (intro conjI allI impI)
    show "is_JObj (setNestedValue T p v)"
      using inv by (simp add: overrides_inv_def setNestedValue_is_JObj)
    fix q w assume "get_path (setNestedValue T p v) q = Some w"
    from setNestedValue_paths[OF ne this[unfolded v]]
    show "(length q < 4 \<and> is_JObj w) \<or> (secret_site D q \<and> get_path D q = Some w)"
    proof (elim disjE)
      assume "q = p \<and> w = JStr s"
      with site g v show ?thesis by simp
    next
      assume "strict_prefix q p \<and> is_JObj w"
      with l show ?thesis by (auto dest: prefix_length_less)
    next
      assume "get_path T q = Some w"
      with inv show ?thesis by (auto simp: overrides_inv_def)
    qed
  qed
qed

lemma extract_headers_snd:
  assumes "\<And>kv T. kv \<in> set hs \<Longrightarrow> isSecretString (snd kv) \<Longrightarrow> P T \<Longrightarrow>
             P (setNestedValue T [''mcp'', s, ''headers'', fst kv] (snd kv))"
    and "P ovr"
  shows "P (snd (extract_headers s hs (hdrs, ovr)))"
  using assms
proof (induction hs arbitrary: hdrs ovr)
  case Nil
  then show ?case by simp
next
  case (Cons kv hs)
  obtain h v where kv: "kv = (h, v)" by (cases kv)
  have step: "\<And>kv T. kv \<in> set hs \<Longrightarrow> isSecretString (snd kv) \<Longrightarrow> P T \<Longrightarrow>
             P (setNestedValue T [''mcp'', s, ''headers'', fst kv] (snd kv))"
    using Cons.prems(1) by simp
  show ?case
  proof (cases "isSecretString v")
    case False
    with Cons.IH[OF step Cons.prems(2)] kv show ?thesis by simp
  next
    case True
    have "P (setNestedValue ovr [''mcp'', s, ''headers'', h] v)"
      using Cons.prems(1)[of kv ovr] True kv Cons.prems(2) by simp
    from Cons.IH[OF step this] True kv show ?thesis by (simp add: Let_def)
  qed
qed

lemma extract_server_headers_oauth:
  "js_get (fst (extract_server_headers s (Obj ps) ovr)) ''oauth'' = js_get (Obj ps) ''oauth''"
proof (cases "isPlainObject (js_get (Obj ps) ''headers'')")
  case True
  then obtain hv where hv: "map_of ps ''headers'' = Some hv"
    by (auto simp: plain_js_get_Obj)
  have "js_get (write_back (Obj ps) ''headers'' X) ''oauth'' = js_get (Obj ps) ''oauth''" for X
    using hv by (simp add: write_back_own js_get_Obj update_conv')
  with True show ?thesis by (simp add: extract_server_headers_def case_prod_beta Let_def)
next
  case False
  then show ?thesis by (simp add: extract_server_headers_def Let_def)
qed

lemma extract_server_headers_snd:
  assumes hd: "\<And>hv kv T. map_of ps ''headers'' = Some hv \<Longrightarrow> isPlainObject hv \<Longrightarrow>
             kv \<in> set (entries hv) \<Longrightarrow> isSecretString (snd kv) \<Longrightarrow> P T \<Longrightarrow>
             P (setNestedValue T [''mcp'', s, ''headers'', fst kv] (snd kv))"
    and P: "P ovr"
  shows "P (snd (extract_server_headers s (Obj ps) ovr))"
proof (cases "isPlainObject (js_get (Obj ps) ''headers'')")
  case True
  then obtain hv where hv: "map_of ps ''headers'' = Some hv" "isPlainObject hv"
    by (auto simp: plain_js_get_Obj)
  then have g: "js_get (Obj ps) ''headers'' = hv" by (simp add: js_get_Obj)
  have "P (snd (extract_headers s (entries hv) (hv, ovr)))"
    by (rule extract_headers_snd) (use hd[OF hv] P in auto)
  with True g show ?thesis by (simp add: extract_server_headers_def case_prod_beta Let_def)
next
  case False
  with P show ?thesis by (simp add: extract_server_headers_def Let_def)
qed

lemma extract_server_oauth_snd:
  assumes oa: "\<And>ov cs. js_get sc ''oauth'' = ov \<Longrightarrow> isPlainObject ov \<Longrightarrow>
             map_of (entries ov) ''clientSecret'' = Some cs \<Longrightarrow> isSecretString cs \<Longrightarrow>
             P (setNestedValue ovr [''mcp'', s, ''oauth'', ''clientSecret''] cs)"
    and P: "P ovr"
  shows "P (snd (extract_server_oauth s sc ovr))"
proof (cases "isPlainObject (js_get sc ''oauth'') \<and>
              isSecretString (js_get (js_get sc ''oauth'') ''clientSecret'')")
  case False
  with P show ?thesis
    by (auto simp: extract_server_oauth_def Let_def)
next
  case True
  then obtain os where os: "js_get sc ''oauth'' = Obj os" by (cases "js_get sc ''oauth''") auto
  from True os have sec: "isSecretString (js_get (Obj os) ''clientSecret'')" by simp
  then have m: "map_of os ''clientSecret'' = Some (js_get (Obj os) ''clientSecret'')"
    by (rule secret_js_get)
  have "P (setNestedValue ovr [''mcp'', s, ''oauth'', ''clientSecret''] (js_get (Obj os) ''clientSecret''))"
    by (rule oa[OF os]) (use m sec in auto)
  with True os show ?thesis
    by (simp add: extract_server_oauth_def Let_def)
qed

lemma extract_server_snd:
  assumes hd: "\<And>hv kv T. map_of ps ''headers'' = Some hv \<Longrightarrow> isPlainObject hv \<Longrightarrow>
             kv \<in> set (entries hv) \<Longrightarrow> isSecretString (snd kv) \<Longrightarrow> P T \<Longrightarrow>
             P (setNestedValue T [''mcp'', s, ''headers'', fst kv] (snd kv))"
    and oa: "\<And>ov cs T. map_of ps ''oauth'' = Some ov \<Longrightarrow> isPlainObject ov \<Longrightarrow>
             map_of (entries ov) ''clientSecret'' = Some cs \<Longrightarrow> isSecretString cs \<Longrightarrow> P T \<Longrightarrow>
             P (setNestedValue T [''mcp'', s, ''oauth'', ''clientSecret''] cs)"
    and P: "P ovr"
  shows "P (snd (extract_server s (Obj ps) ovr))"
proof -
  obtain sc1 ovr1 where st: "extract_server_headers s (Obj ps) ovr = (sc1, ovr1)"
    by (cases "extract_server_headers s (Obj ps) ovr")
  have P1: "P ovr1"
    using extract_server_headers_snd[of ps P s ovr, OF hd P] st by simp
  have o1: "js_get sc1 ''oauth'' = js_get (Obj ps) ''oauth''"
    using extract_server_headers_oauth[of s ps ovr] st by simp
  have "P (snd (extract_server_oauth s sc1 ovr1))"
  proof (rule extract_server_oauth_snd[where P=P and sc=sc1 and ovr=ovr1 and s=s])
    show "P ovr1" by (rule P1)
  next
    fix ov cs assume a: "js_get sc1 ''oauth'' = ov" "isPlainObject ov"
      "map_of (entries ov) ''clientSecret'' = Some cs" "isSecretString cs"
    with o1 have "map_of ps ''oauth'' = Some ov"
      by (auto simp: js_get_Obj split: option.splits if_splits)
    from oa[OF this a(2,3,4) P1]
    show "P (setNestedValue ovr1 [''mcp'', s, ''oauth'', ''clientSecret''] cs)" .
  qed
  with st show ?thesis by (simp add: extract_server_def)
qed

lemma extract_servers_snd:
  assumes "\<And>kv T. kv \<in> set ms \<Longrightarrow> isPlainObject (snd kv) \<Longrightarrow> P T \<Longrightarrow>
             P (snd (extract_server (fst kv) (snd kv) T))"
    and "P ovr"
  shows "P (snd (extract_servers ms (mcp, ovr)))"
  using assms
proof (induction ms arbitrary: mcp ovr)
  case Nil
  then show ?case by simp
next
  case (Cons kv ms)
  obtain s sc where kv: "kv = (s, sc)" by (cases kv)
  have step: "\<And>kv T. kv \<in> set ms \<Longrightarrow> isPlainObject (snd kv) \<Longrightarrow> P T \<Longrightarrow>
             P (snd (extract_server (fst kv) (snd kv) T))"
    using Cons.prems(1) by simp
  show ?case
  proof (cases "isPlainObject sc")
    case False
    with Cons.IH[OF step Cons.prems(2)] kv show ?thesis by simp
  next
    case True
    have "P (snd (extract_server s sc ovr))"
      using Cons.prems(1)[of kv ovr] True kv Cons.prems(2) by simp
    from Cons.IH[OF step this] True kv show ?thesis by (simp add: case_prod_beta)
  qed
qed

lemma extractMcpSecrets_overrides_induct:
  assumes jc: "json_compatible D" and ex: "extractMcpSecrets D = Inr r"
    and base: "P (Obj [])"
    and step: "\<And>T p v. P T \<Longrightarrow> secret_path p \<Longrightarrow> get_path D p = Some v \<Longrightarrow>
                 isSecretString v \<Longrightarrow> P (setNestedValue T p v)"
  shows "P (secretOverrides r)"
proof (cases "isPlainObject (js_get D ''mcp'')")
  case False
  with ex jc base show ?thesis
    by (auto simp: extractMcpSecrets_def cloneConfig_id Let_def split: if_splits)
next
  case True
  then obtain pr ps where D: "D = JObj pr ps" by (cases D) (auto simp: js_get.simps)
  with jc have pr: "pr = JObjectPrototype" by simp
  from True D pr obtain mv where mv: "map_of ps ''mcp'' = Some mv" "isPlainObject mv"
    by (auto simp: plain_js_get_Obj)
  then obtain ms where ms: "mv = Obj ms" by (cases mv) auto
  have g: "js_get D ''mcp'' = Obj ms" using mv ms D pr by (simp add: js_get_Obj)
  have jm: "json_compatible (Obj ms)" using json_compatible_lookup[of pr ps "''mcp''" mv] jc D mv ms by simp
  then have dm: "distinct (map fst ms)" by simp
  have "P (snd (extract_servers ms (Obj ms, Obj [])))"
  proof (rule extract_servers_snd[where P=P])
    show "P (Obj [])" by (rule base)
    fix kv T assume kv: "kv \<in> set ms" and plain: "isPlainObject (snd kv)" and T: "P T"
    obtain s sc where kv': "kv = (s, sc)" by (cases kv)
    from plain kv' obtain ss where sc: "sc = Obj ss" by (cases sc) auto
    have msc: "map_of ms s = Some (Obj ss)" using map_of_in_set[OF dm kv] kv' sc by simp
    have jsc: "json_compatible (Obj ss)" using json_compatible_member[OF jm kv] kv' sc by simp
    have "P (snd (extract_server s (Obj ss) T))"
    proof (rule extract_server_snd[where P=P])
      show "P T" by (rule T)
    next
      fix hv kv T assume hv: "map_of ss ''headers'' = Some hv" "isPlainObject hv"
        and kin: "kv \<in> set (entries hv)" and sec: "isSecretString (snd kv)" and T: "P T"
      from hv obtain hs where hs: "hv = Obj hs" by (cases hv) auto
      have "json_compatible (Obj hs)" using json_compatible_lookup[OF jsc hv(1)] hs by simp
      then have "distinct (map fst hs)" by simp
      from map_of_in_set[OF this, of kv] kin hs have "map_of hs (fst kv) = Some (snd kv)" by simp
      then have "get_path D [''mcp'', s, ''headers'', fst kv] = Some (snd kv)"
        using D mv ms msc hv hs by simp
      then show "P (setNestedValue T [''mcp'', s, ''headers'', fst kv] (snd kv))"
        by (intro step[OF T _ _ sec]) (simp_all add: secret_path_def)
    next
      fix ov cs T assume ov: "map_of ss ''oauth'' = Some ov" "isPlainObject ov"
        and m: "map_of (entries ov) ''clientSecret'' = Some cs" and sec: "isSecretString cs"
        and T: "P T"
      from ov obtain os where os: "ov = Obj os" by (cases ov) auto
      have "get_path D [''mcp'', s, ''oauth'', ''clientSecret''] = Some cs"
        using D mv ms msc ov os m by simp
      then show "P (setNestedValue T [''mcp'', s, ''oauth'', ''clientSecret''] cs)"
        by (intro step[OF T _ _ sec]) (simp_all add: secret_path_def)
    qed
    with kv' sc show "P (snd (extract_server (fst kv) (snd kv) T))" by simp
  qed
  with ex jc True g show ?thesis
    by (auto simp: extractMcpSecrets_def cloneConfig_id Let_def case_prod_beta split: if_splits)
qed

lemma extractMcpSecrets_overrides_inv:
  assumes "json_compatible D" "extractMcpSecrets D = Inr r"
  shows "overrides_inv D (secretOverrides r)"
  using assms
  by (rule extractMcpSecrets_overrides_induct) (auto intro: overrides_inv_empty overrides_inv_step)

lemma extractMcpSecrets_no_secret_overrides:
  assumes "json_compatible D" "extractMcpSecrets D = Inr r" "\<And>p. \<not> secret_site D p"
  shows "secretOverrides r = Obj []"
  using assms(1,2)
proof (rule extractMcpSecrets_overrides_induct)
  fix T p v assume "secret_path p" "get_path D p = Some v" "isSecretString v"
  then have "secret_site D p" by (simp add: secret_site_def)
  with assms(3) show "setNestedValue T p v = Obj []" by simp
qed simp

lemma extractMcpSecrets_no_secret:
  assumes jc: "json_compatible D" and ex: "extractMcpSecrets D = Inr r" and ns: "\<And>p. \<not> secret_site D p"
  shows "r = \<lparr>sanitizedConfig = D, secretOverrides = Obj []\<rparr>"
proof -
  have "sanitize_at [] D = D"
  proof (rule sanitize_at_id[OF jc])
    fix q w assume "secret_path ([] @ q)" "get_path D q = Some w"
    with ns[of q] show "\<not> isSecretString w" by (simp add: secret_site_def)
  qed
  with extractMcpSecrets_sanitized[OF jc ex] have "sanitizedConfig r = D" by simp
  moreover have "secretOverrides r = Obj []"
    using jc ex ns by (rule extractMcpSecrets_no_secret_overrides)
  ultimately show ?thesis by simp
qed

lemma extractMcpSecrets_total:
  assumes "json_compatible D" "D \<noteq> JNull"
  shows "\<exists>r. extractMcpSecrets D = Inr r"
  using assms by (simp add: extractMcpSecrets_def cloneConfig_id Let_def case_prod_beta)

section \<open>Tokens\<close>

lemma fields_nonempty: "split_fields s \<noteq> []"
  by (induction s) (auto split: list.splits)

lemma split_fields_alnum:
  "is_alnum c \<Longrightarrow> split_fields (c # cs) = (c # hd (split_fields cs)) # tl (split_fields cs)"
  using fields_nonempty[of cs] by (cases "split_fields cs") auto

lemma split_fields_sep: "\<not> is_alnum c \<Longrightarrow> split_fields (c # cs) = [] # split_fields cs"
  by simp

declare split_fields.simps(2) [simp del]

declare split_fields_alnum [simp] split_fields_sep [simp]

lemma alnum_runs_Nil [simp]: "alnum_runs [] = []"
  by (simp add: alnum_runs_def)

lemma alnum_runs_sep: "\<not> is_alnum c \<Longrightarrow> alnum_runs (c # cs) = alnum_runs cs"
  by (simp add: alnum_runs_def)

lemma alnum_runs_dropWhile: "alnum_runs (dropWhile (\<lambda>x. \<not> is_alnum x) s) = alnum_runs s"
  by (induction s) (auto simp: alnum_runs_sep)

lemma fields_run:
  "list_all is_alnum a \<Longrightarrow> split_fields (a @ rest) = (a @ hd (split_fields rest)) # tl (split_fields rest)"
  by (induction a) (auto simp: fields_nonempty)

lemma alnum_runs_run:
  assumes "a \<noteq> []" "list_all is_alnum a" "rest = [] \<or> \<not> is_alnum (hd rest)"
  shows "alnum_runs (a @ rest) = a # alnum_runs rest"
proof (cases rest)
  case Nil
  with assms show ?thesis using fields_run[of a "[]"] by (simp add: alnum_runs_def)
next
  case (Cons c cs)
  with assms have "\<not> is_alnum c" by simp
  with Cons assms show ?thesis using fields_run[of a rest] by (simp add: alnum_runs_def)
qed

lemma replace_run:
  "list_all is_alnum a \<Longrightarrow> replace_non_alnum_runs (a @ rest) = a @ replace_non_alnum_runs rest"
  by (induction a) auto

lemma strip_underscores_alt:
  "strip_underscores s = strip_trailing (dropWhile (\<lambda>x. x = CHR ''_'') s)"
  by (simp add: strip_underscores_def strip_trailing_def)

lemma alnum_not_underscore: "is_alnum c \<Longrightarrow> c \<noteq> CHR ''_''"
  by (auto simp: is_alnum_def is_lower_def is_upper_def is_digit_def lower_letters_def upper_letters_def digit_chars_def)

lemma strip_trailing_Nil [simp]: "strip_trailing [] = []"
  by (simp add: strip_trailing_def)

lemma strip_trailing_snoc:
  "c \<noteq> CHR ''_'' \<Longrightarrow> strip_trailing (s @ [c]) = s @ [c]"
  by (simp add: strip_trailing_def)

lemma strip_trailing_snoc_underscore:
  "strip_trailing (s @ ''_'') = strip_trailing s"
  by (simp add: strip_trailing_def)

lemma strip_trailing_append_keep:
  "strip_trailing t \<noteq> [] \<Longrightarrow> strip_trailing (s @ t) = s @ strip_trailing t"
proof (induction t rule: rev_induct)
  case Nil
  then show ?case by simp
next
  case (snoc c t)
  show ?case
  proof (cases "c = CHR ''_''")
    case True
    with snoc show ?thesis
      using strip_trailing_snoc_underscore[of "s @ t"] strip_trailing_snoc_underscore[of t] by simp
  next
    case False
    then show ?thesis
      using strip_trailing_snoc[of c "s @ t"] strip_trailing_snoc[of c t] by simp
  qed
qed

lemma strip_trailing_append_drop:
  "strip_trailing t = [] \<Longrightarrow> strip_trailing (s @ t) = strip_trailing s"
proof (induction t rule: rev_induct)
  case Nil
  then show ?case by simp
next
  case (snoc c t)
  show ?case
  proof (cases "c = CHR ''_''")
    case True
    with snoc show ?thesis
      using strip_trailing_snoc_underscore[of "s @ t"] strip_trailing_snoc_underscore[of t] by simp
  next
    case False
    with snoc.prems show ?thesis
      using strip_trailing_snoc[of c t] by simp
  qed
qed

lemma strip_trailing_run:
  assumes "a \<noteq> []" "list_all is_alnum a"
  shows "strip_trailing a = a"
proof -
  from assms(1) obtain b c where a: "a = b @ [c]" by (cases a rule: rev_cases) auto
  with assms(2) have "c \<noteq> CHR ''_''" by (auto dest: alnum_not_underscore)
  then show ?thesis unfolding a by (rule strip_trailing_snoc)
qed

lemma alnum_runs_seps: "list_all (\<lambda>c. \<not> is_alnum c) t \<Longrightarrow> alnum_runs t = []"
  by (induction t) (auto simp: alnum_runs_sep)

lemma fields_append_seps:
  assumes "list_all (\<lambda>c. \<not> is_alnum c) t"
  shows "hd (split_fields (s @ t)) = hd (split_fields s) \<and>
         filter (\<lambda>f. f \<noteq> []) (tl (split_fields (s @ t))) = filter (\<lambda>f. f \<noteq> []) (tl (split_fields s))"
proof (induction s)
  case Nil
  show ?case
  proof (cases t)
    case Nil
    then show ?thesis by simp
  next
    case (Cons d ds)
    with assms have "\<not> is_alnum d" "alnum_runs ds = []" by (auto simp: alnum_runs_seps)
    with Cons show ?thesis by (simp add: alnum_runs_def)
  qed
next
  case (Cons c s)
  show ?case
  proof (cases "is_alnum c")
    case True
    with Cons show ?thesis by simp
  next
    case False
    have "split_fields (s @ t) = hd (split_fields (s @ t)) # tl (split_fields (s @ t))"
      "split_fields s = hd (split_fields s) # tl (split_fields s)"
      by (simp_all add: fields_nonempty)
    then have "filter (\<lambda>f. f \<noteq> []) (split_fields (s @ t)) = filter (\<lambda>f. f \<noteq> []) (split_fields s)"
      using Cons by (metis filter.simps(2))
    with False show ?thesis by simp
  qed
qed

lemma alnum_runs_append_seps:
  assumes "list_all (\<lambda>c. \<not> is_alnum c) t"
  shows "alnum_runs (s @ t) = alnum_runs s"
proof -
  have "split_fields (s @ t) = hd (split_fields (s @ t)) # tl (split_fields (s @ t))"
    "split_fields s = hd (split_fields s) # tl (split_fields s)"
    by (simp_all add: fields_nonempty)
  then show ?thesis
    unfolding alnum_runs_def using fields_append_seps[OF assms, of s] by (metis filter.simps(2))
qed

lemma space_not_alnum: "is_space c \<Longrightarrow> \<not> is_alnum c"
  by (auto simp: is_space_def is_alnum_def is_lower_def is_upper_def is_digit_def
        lower_letters_def upper_letters_def digit_chars_def)

lemma alnum_runs_dropWhile_seps:
  "(\<And>c. P c \<Longrightarrow> \<not> is_alnum c) \<Longrightarrow> alnum_runs (dropWhile P s) = alnum_runs s"
  by (induction s) (auto simp: alnum_runs_sep)

lemma alnum_runs_trim: "alnum_runs (trim s) = alnum_runs s"
proof -
  define s1 where "s1 = dropWhile is_space s"
  have "s1 = rev (dropWhile is_space (rev s1)) @ rev (takeWhile is_space (rev s1))"
    by (metis rev_append rev_rev_ident takeWhile_dropWhile_id)
  moreover have "list_all (\<lambda>c. \<not> is_alnum c) (rev (takeWhile is_space (rev s1)))"
    by (auto simp: list_all_iff dest!: set_takeWhileD space_not_alnum)
  ultimately have "alnum_runs s1 = alnum_runs (rev (dropWhile is_space (rev s1)))"
    using alnum_runs_append_seps by metis
  moreover have "alnum_runs s1 = alnum_runs s"
    unfolding s1_def by (rule alnum_runs_dropWhile_seps) (rule space_not_alnum)
  ultimately show ?thesis by (simp add: trim_def s1_def)
qed

lemma alnum_runs_nonempty: "r \<in> set (alnum_runs s) \<Longrightarrow> r \<noteq> []"
  by (simp add: alnum_runs_def)

lemma join_underscore_Cons:
  "rs \<noteq> [] \<Longrightarrow> join_underscore (r # rs) = r @ ''_'' @ join_underscore rs"
  by (cases rs) auto

lemma join_underscore_eq_Nil: "(\<And>r. r \<in> set rs \<Longrightarrow> r \<noteq> []) \<Longrightarrow> join_underscore rs = [] \<longleftrightarrow> rs = []"
  by (induction rs rule: join_underscore.induct) auto

lemma starts_alnum_dropWhile: "starts_alnum (dropWhile (\<lambda>x. \<not> is_alnum x) s)"
  unfolding starts_alnum_def using hd_dropWhile[of "\<lambda>x. \<not> is_alnum x" s] by auto

lemma strip_trailing_replace:
  "starts_alnum s \<Longrightarrow> strip_trailing (replace_non_alnum_runs s) = join_underscore (alnum_runs s)"
proof (induction "length s" arbitrary: s rule: less_induct)
  case less
  show ?case
  proof (cases s)
    case Nil
    then show ?thesis by simp
  next
    case (Cons c cs)
    with less.prems have c: "is_alnum c" by (simp add: starts_alnum_def)
    define a where "a = takeWhile is_alnum s"
    define rest where "rest = dropWhile is_alnum s"
    have s: "s = a @ rest" by (simp add: a_def rest_def)
    have a: "a \<noteq> []" "list_all is_alnum a"
      using c Cons by (auto simp: a_def list_all_iff dest: set_takeWhileD)
    have r: "rest = [] \<or> \<not> is_alnum (hd rest)"
      unfolding rest_def using hd_dropWhile[of is_alnum s] by auto
    have rep: "replace_non_alnum_runs s = a @ replace_non_alnum_runs rest"
      unfolding s using a(2) by (rule replace_run)
    have runs: "alnum_runs s = a # alnum_runs rest"
      unfolding s using a r by (rule alnum_runs_run)
    show ?thesis
    proof (cases rest)
      case Nil
      with rep runs a show ?thesis by (simp add: strip_trailing_run)
    next
      case rc: (Cons d ds)
      with r have d: "\<not> is_alnum d" by simp
      define s' where "s' = dropWhile (\<lambda>x. \<not> is_alnum x) ds"
      have rep': "replace_non_alnum_runs rest = ''_'' @ replace_non_alnum_runs s'"
        using rc d by (simp add: s'_def)
      have runs': "alnum_runs rest = alnum_runs s'"
        using rc d by (simp add: s'_def alnum_runs_sep alnum_runs_dropWhile)
      have "length s' \<le> length ds" unfolding s'_def by (rule length_dropWhile_le)
      also have "\<dots> < length s" using s rc a by simp
      finally have len: "length s' < length s" .
      have IH: "strip_trailing (replace_non_alnum_runs s') = join_underscore (alnum_runs s')"
        by (rule less.hyps[OF len]) (simp add: s'_def starts_alnum_dropWhile)
      show ?thesis
      proof (cases "alnum_runs s' = []")
        case True
        with IH have e: "strip_trailing (replace_non_alnum_runs s') = []" by simp
        have "strip_trailing (''_'' @ replace_non_alnum_runs s') = strip_trailing ''_''"
          using e by (rule strip_trailing_append_drop)
        also have "\<dots> = []" by (simp add: strip_trailing_def)
        finally have "strip_trailing (a @ ''_'' @ replace_non_alnum_runs s') = strip_trailing a"
          by (rule strip_trailing_append_drop)
        with rep rep' runs runs' True a show ?thesis by (simp add: strip_trailing_run)
      next
        case False
        have ne: "join_underscore (alnum_runs s') \<noteq> []"
          using False join_underscore_eq_Nil[of "alnum_runs s'"] alnum_runs_nonempty by blast
        have "strip_trailing ((a @ ''_'') @ replace_non_alnum_runs s') =
              (a @ ''_'') @ strip_trailing (replace_non_alnum_runs s')"
          by (rule strip_trailing_append_keep) (use IH ne in simp)
        with rep rep' runs runs' IH False show ?thesis
          by (simp add: join_underscore_Cons)
      qed
    qed
  qed
qed

lemma replace_starts_alnum:
  "starts_alnum s \<Longrightarrow> dropWhile (\<lambda>x. x = CHR ''_'') (replace_non_alnum_runs s) = replace_non_alnum_runs s"
  by (cases s) (auto simp: starts_alnum_def dest: alnum_not_underscore)

lemma strip_underscores_replace:
  "strip_underscores (replace_non_alnum_runs s) = join_underscore (alnum_runs s)"
proof (cases "starts_alnum s")
  case True
  then show ?thesis
    by (simp add: strip_underscores_alt replace_starts_alnum strip_trailing_replace)
next
  case False
  then obtain c cs where s: "s = c # cs" and c: "\<not> is_alnum c"
    by (cases s) (auto simp: starts_alnum_def)
  define s' where "s' = dropWhile (\<lambda>x. \<not> is_alnum x) cs"
  have sa: "starts_alnum s'" by (simp add: s'_def starts_alnum_dropWhile)
  have "strip_underscores (replace_non_alnum_runs s) = strip_trailing (replace_non_alnum_runs s')"
    using s c sa by (simp add: strip_underscores_alt s'_def[symmetric] replace_starts_alnum)
  also have "\<dots> = join_underscore (alnum_runs s')" using sa by (rule strip_trailing_replace)
  also have "alnum_runs s' = alnum_runs s" using s c by (simp add: s'_def alnum_runs_sep alnum_runs_dropWhile)
  finally show ?thesis .
qed

lemma toUpperCase_join:
  "toUpperCase (join_underscore rs) = join_underscore (map toUpperCase rs)"
  by (induction rs rule: join_underscore.induct)
     (auto simp: toUpperCase_def lower_letters_def upper_letters_def)

theorem toEnvToken_runs:
  "toEnvToken input fallback =
     (if alnum_runs input = [] then fallback
      else join_underscore (map toUpperCase (alnum_runs input)))"
proof -
  have "strip_underscores (replace_non_alnum_runs (trim input)) = join_underscore (alnum_runs input)"
    by (simp add: strip_underscores_replace alnum_runs_trim)
  moreover have "join_underscore (alnum_runs input) = [] \<longleftrightarrow> alnum_runs input = []"
    by (rule join_underscore_eq_Nil) (rule alnum_runs_nonempty)
  ultimately show ?thesis
    by (simp add: toEnvToken_def toUpperCase_join)
qed

section \<open>The two patterns\<close>

lemma space_not_scheme_char: "is_space c \<Longrightarrow> \<not> is_scheme_char c"
  by (auto simp: is_space_def is_scheme_char_def is_alnum_def is_lower_def is_upper_def is_digit_def
        lower_letters_def upper_letters_def digit_chars_def)

lemma takeWhile_run:
  "list_all P a \<Longrightarrow> rest = [] \<or> \<not> P (hd rest) \<Longrightarrow> takeWhile P (a @ rest) = a"
  by (induction a) (auto simp: takeWhile_eq_Nil_iff)

lemma dropWhile_run:
  "list_all P a \<Longrightarrow> rest = [] \<or> \<not> P (hd rest) \<Longrightarrow> dropWhile P (a @ rest) = rest"
  by (induction a) (auto simp: dropWhile_eq_self_iff)

lemma scheme_match_Some:
  assumes a: "is_lower a \<or> is_upper a" and b: "list_all is_scheme_char body"
    and w: "ws \<noteq> []" "list_all is_space ws" and r: "rest = [] \<or> \<not> is_space (hd rest)"
  shows "scheme_match (a # body @ ws @ rest) = Some (a # body @ ws)"
proof -
  from w have "\<not> is_scheme_char (hd (ws @ rest))"
    by (cases ws) (auto dest: space_not_scheme_char)
  with w have sep: "ws @ rest = [] \<or> \<not> is_scheme_char (hd (ws @ rest))" by simp
  have t: "takeWhile is_scheme_char (body @ ws @ rest) = body"
    using b sep by (rule takeWhile_run)
  have d: "dropWhile is_scheme_char (body @ ws @ rest) = ws @ rest"
    using b sep by (rule dropWhile_run)
  have s: "takeWhile is_space (ws @ rest) = ws"
    using w(2) r by (rule takeWhile_run)
  show ?thesis using a w(1) by (simp add: scheme_match_def t d s)
qed

lemma scheme_match_SomeD:
  assumes "scheme_match val = Some m"
  shows "\<exists>a body ws rest. val = a # body @ ws @ rest \<and> m = a # body @ ws \<and>
           (is_lower a \<or> is_upper a) \<and> list_all is_scheme_char body \<and>
           ws \<noteq> [] \<and> list_all is_space ws \<and> (rest = [] \<or> \<not> is_space (hd rest))"
proof -
  from assms obtain a cs where val: "val = a # cs" and a: "is_lower a \<or> is_upper a"
    by (cases val) (auto simp: scheme_match_def split: if_splits)
  define body where "body = takeWhile is_scheme_char cs"
  define ws where "ws = takeWhile is_space (dropWhile is_scheme_char cs)"
  define rest where "rest = dropWhile is_space (dropWhile is_scheme_char cs)"
  have cs: "cs = body @ ws @ rest" by (simp add: body_def ws_def rest_def)
  from assms val a have m: "m = a # body @ ws" and ne: "ws \<noteq> []"
    by (auto simp: scheme_match_def body_def ws_def Let_def split: if_splits)
  have "list_all is_scheme_char body" "list_all is_space ws"
    by (auto simp: body_def ws_def list_all_iff dest: set_takeWhileD)
  moreover have "rest = [] \<or> \<not> is_space (hd rest)"
    unfolding rest_def using hd_dropWhile[of is_space "dropWhile is_scheme_char cs"] by auto
  ultimately show ?thesis using val cs m ne a by blast
qed

lemma scheme_match_None:
  assumes "scheme_match val = None"
  shows "\<not> (\<exists>a body ws rest. val = a # body @ ws @ rest \<and>
           (is_lower a \<or> is_upper a) \<and> list_all is_scheme_char body \<and>
           ws \<noteq> [] \<and> list_all is_space ws)"
proof
  assume "\<exists>a body ws rest. val = a # body @ ws @ rest \<and>
           (is_lower a \<or> is_upper a) \<and> list_all is_scheme_char body \<and>
           ws \<noteq> [] \<and> list_all is_space ws"
  then obtain a body ws rest where v: "val = a # body @ ws @ rest"
    and a: "is_lower a \<or> is_upper a" and b: "list_all is_scheme_char body"
    and w: "ws \<noteq> []" "list_all is_space ws" by blast
  define ws' where "ws' = ws @ takeWhile is_space rest"
  define rest' where "rest' = dropWhile is_space rest"
  have "val = a # body @ ws' @ rest'" using v by (simp add: ws'_def rest'_def)
  moreover have "ws' \<noteq> []" "list_all is_space ws'"
    using w by (auto simp: ws'_def list_all_iff dest: set_takeWhileD)
  moreover have "rest' = [] \<or> \<not> is_space (hd rest')"
    unfolding rest'_def using hd_dropWhile[of is_space rest] by auto
  ultimately have "scheme_match val = Some (a # body @ ws')"
    using scheme_match_Some[OF a b] by simp
  with assms show False by simp
qed

lemma env_placeholder_at_intro:
  assumes "toUpperCase [e, n, v] = ''ENV''" "name \<noteq> []" "CHR ''}'' \<notin> set name"
  shows "env_placeholder_at (''{'' @ [e, n, v] @ '':'' @ name @ ''}'' @ post)"
proof -
  have sep: "''}'' @ post = [] \<or> \<not> (\<lambda>x. x \<noteq> CHR ''}'') (hd (''}'' @ post))" by simp
  have all: "list_all (\<lambda>x. x \<noteq> CHR ''}'') name" using assms(3) by (auto simp: list_all_iff)
  have t: "takeWhile (\<lambda>x. x \<noteq> CHR ''}'') (name @ ''}'' @ post) = name"
    using all sep by (rule takeWhile_run)
  have d: "dropWhile (\<lambda>x. x \<noteq> CHR ''}'') (name @ ''}'' @ post) = ''}'' @ post"
    using all sep by (rule dropWhile_run)
  show ?thesis using assms(1,2) t d by simp
qed

lemma ENV_PLACEHOLDER_PATTERN_test_suffix:
  "ENV_PLACEHOLDER_PATTERN_test s \<Longrightarrow> ENV_PLACEHOLDER_PATTERN_test (pre @ s)"
  by (induction pre) auto

lemma env_placeholder_at_test: "env_placeholder_at s \<Longrightarrow> ENV_PLACEHOLDER_PATTERN_test s"
  by (cases s) auto

lemma ENV_PLACEHOLDER_PATTERN_test_contains:
  assumes "toUpperCase [e, n, v] = ''ENV''" "name \<noteq> []" "CHR ''}'' \<notin> set name"
  shows "ENV_PLACEHOLDER_PATTERN_test (pre @ ''{'' @ [e, n, v] @ '':'' @ name @ ''}'' @ post)"
  by (intro ENV_PLACEHOLDER_PATTERN_test_suffix env_placeholder_at_test env_placeholder_at_intro assms)

lemma env_placeholder_atD:
  assumes "env_placeholder_at s"
  shows "\<exists>e n v name post. s = ''{'' @ [e, n, v] @ '':'' @ name @ ''}'' @ post \<and>
           toUpperCase [e, n, v] = ''ENV'' \<and> name \<noteq> [] \<and> CHR ''}'' \<notin> set name"
proof -
  from assms obtain b e n v c rest where s: "s = b # e # n # v # c # rest"
    by (cases s rule: env_placeholder_at.cases) auto
  define name where "name = takeWhile (\<lambda>x. x \<noteq> CHR ''}'') rest"
  define tail where "tail = dropWhile (\<lambda>x. x \<noteq> CHR ''}'') rest"
  from assms s have f: "b = CHR ''{''" "toUpperCase [e, n, v] = ''ENV''" "c = CHR '':''"
    "name \<noteq> []" "tail \<noteq> []" by (auto simp: name_def tail_def)
  have "hd tail = CHR ''}''"
    using f(5) hd_dropWhile[of "\<lambda>x. x \<noteq> CHR ''}''" rest] by (simp add: tail_def)
  with f(5) obtain post where tail: "tail = ''}'' @ post" by (cases tail) auto
  have "rest = name @ tail" by (simp add: name_def tail_def)
  moreover have "CHR ''}'' \<notin> set name" by (auto simp: name_def dest: set_takeWhileD)
  ultimately show ?thesis using s f tail by auto
qed

lemma ENV_PLACEHOLDER_PATTERN_test_iff:
  "ENV_PLACEHOLDER_PATTERN_test s \<longleftrightarrow>
     (\<exists>pre e n v name post. s = pre @ ''{'' @ [e, n, v] @ '':'' @ name @ ''}'' @ post \<and>
        toUpperCase [e, n, v] = ''ENV'' \<and> name \<noteq> [] \<and> CHR ''}'' \<notin> set name)"
proof
  assume "ENV_PLACEHOLDER_PATTERN_test s"
  then show "\<exists>pre e n v name post. s = pre @ ''{'' @ [e, n, v] @ '':'' @ name @ ''}'' @ post \<and>
        toUpperCase [e, n, v] = ''ENV'' \<and> name \<noteq> [] \<and> CHR ''}'' \<notin> set name"
  proof (induction s)
    case Nil
    then show ?case by simp
  next
    case (Cons c cs)
    show ?case
    proof (cases "env_placeholder_at (c # cs)")
      case True
      from env_placeholder_atD[OF this] show ?thesis by (metis append_Nil)
    next
      case False
      with Cons.prems have "ENV_PLACEHOLDER_PATTERN_test cs" by simp
      from Cons.IH[OF this] obtain pre e n v name post where
        "cs = pre @ ''{'' @ [e, n, v] @ '':'' @ name @ ''}'' @ post \<and>
        toUpperCase [e, n, v] = ''ENV'' \<and> name \<noteq> [] \<and> CHR ''}'' \<notin> set name" by blast
      then have "c # cs = (c # pre) @ ''{'' @ [e, n, v] @ '':'' @ name @ ''}'' @ post \<and>
        toUpperCase [e, n, v] = ''ENV'' \<and> name \<noteq> [] \<and> CHR ''}'' \<notin> set name" by simp
      then show ?thesis by blast
    qed
  qed
next
  assume "\<exists>pre e n v name post. s = pre @ ''{'' @ [e, n, v] @ '':'' @ name @ ''}'' @ post \<and>
        toUpperCase [e, n, v] = ''ENV'' \<and> name \<noteq> [] \<and> CHR ''}'' \<notin> set name"
  then show "ENV_PLACEHOLDER_PATTERN_test s"
    using ENV_PLACEHOLDER_PATTERN_test_contains by blast
qed

lemma toUpperCase_ENV:
  "toUpperCase [e, n, v] = ''ENV'' \<longleftrightarrow>
     (e = CHR ''e'' \<or> e = CHR ''E'') \<and> (n = CHR ''n'' \<or> n = CHR ''N'') \<and> (v = CHR ''v'' \<or> v = CHR ''V'')"
  by (simp add: toUpperCase_def lower_letters_def upper_letters_def) 

lemma isAuthorizationHeader_iff:
  "isAuthorizationHeader h \<longleftrightarrow> toLowerCase h = ''authorization'' \<or> toLowerCase h = ''proxy-authorization''"
  by (auto simp: isAuthorizationHeader_def Let_def toLowerCase_def)

section \<open>Stripping and merging\<close>

declare stripOverrideKeys.simps [simp del] deepMerge.simps [simp del]

lemma stripOverrideKeys_not_plain:
  "\<not> isPlainObject base \<or> \<not> isPlainObject toRemove \<Longrightarrow> stripOverrideKeys base toRemove = base"
  by (auto simp: stripOverrideKeys.simps)

lemma stripOverrideKeys_plain:
  "stripOverrideKeys (Obj bs) (Obj rs) = strip_loop (Obj bs) rs"
  by (simp add: stripOverrideKeys.simps)

lemma js_delete_Obj: "js_delete (JObj pr ps) k = JObj pr (AList.delete k ps)"
  by simp

lemma strip_loop_plain: "\<exists>rs'. strip_loop (Obj rs) es = Obj rs'"
proof (induction es arbitrary: rs)
  case Nil
  then show ?case by simp
next
  case (Cons kv es)
  obtain key rv where kv: "kv = (key, rv)" by (cases kv)
  show ?case
  proof (cases "hasOwn (Obj rs) key")
    case False
    with Cons kv show ?thesis by simp
  next
    case True
    then have own: "map_of rs key \<noteq> None" by (simp add: hasOwn_def)
    have d: "\<exists>rs'. strip_loop (js_delete (Obj rs) key) es = Obj rs'"
      using Cons[of "AList.delete key rs"] by simp
    have u: "\<exists>rs'. strip_loop (js_set (Obj rs) key X) es = Obj rs'" for X
      using Cons[of "AList.update key X rs"] own by (simp add: js_set_own)
    from True d u kv show ?thesis by (auto simp: Let_def)
  qed
qed

lemma strip_loop_lookup:
  "distinct (map fst es) \<Longrightarrow>
   own_prop (strip_loop (Obj rs) es) k =
     (case map_of es k of
        None \<Rightarrow> map_of rs k
      | Some rv \<Rightarrow> (case map_of rs k of None \<Rightarrow> None | Some cv \<Rightarrow> strip_value cv rv))"
proof (induction es arbitrary: rs)
  case Nil
  then show ?case by (simp add: own_prop_def)
next
  case (Cons kv es)
  obtain key rv where kv: "kv = (key, rv)" by (cases kv)
  from Cons.prems kv have d: "distinct (map fst es)" and nk: "map_of es key = None"
    by (auto simp: map_of_eq_None_iff)
  note IH = Cons.IH[OF d]
  show ?case
  proof (cases "map_of rs key")
    case None
    then have "\<not> hasOwn (Obj rs) key" by (simp add: hasOwn_def)
    with kv have "strip_loop (Obj rs) (kv # es) = strip_loop (Obj rs) es" by simp
    with IH[of rs] None nk kv show ?thesis by (auto split: option.splits)
  next
    case (Some cv)
    then have own: "hasOwn (Obj rs) key" and g: "js_get (Obj rs) key = cv"
      by (simp_all add: hasOwn_def js_get_Obj)
    show ?thesis
    proof (cases "strip_value cv rv")
      case None
      then have "strip_loop (Obj rs) (kv # es) = strip_loop (Obj (AList.delete key rs)) es"
        using kv own g by (auto simp: strip_value_def Let_def split: if_splits)
      with IH[of "AList.delete key rs"] None Some nk kv show ?thesis
        by (auto simp: delete_conv' split: option.splits)
    next
      case sv: (Some s)
      then have "strip_loop (Obj rs) (kv # es) = strip_loop (Obj (AList.update key s rs)) es"
        using kv own g Some by (auto simp: strip_value_def Let_def js_set_own split: if_splits)
      with IH[of "AList.update key s rs"] sv Some nk kv show ?thesis
        by (auto simp: update_conv' split: option.splits)
    qed
  qed
qed

lemma strip_loop_empty: "strip_loop (Obj []) es = Obj []"
  by (induction es) (auto simp: hasOwn_def)

lemma stripOverrideKeys_lookup:
  assumes "isPlainObject base" "isPlainObject toRemove" "distinct (map fst (entries toRemove))"
  shows "own_prop (stripOverrideKeys base toRemove) k =
     (case own_prop toRemove k of
        None \<Rightarrow> own_prop base k
      | Some rv \<Rightarrow> (case own_prop base k of None \<Rightarrow> None | Some cv \<Rightarrow> strip_value cv rv))"
proof -
  from assms obtain bs rs where b: "base = Obj bs" and r: "toRemove = Obj rs"
    by (cases base; cases toRemove) auto
  from assms(3) strip_loop_lookup[of rs bs k] show ?thesis
    unfolding b r by (simp add: stripOverrideKeys_plain own_prop_def cong: option.case_cong)
qed

lemma stripOverrideKeys_is_plain:
  "isPlainObject base \<Longrightarrow> isPlainObject (stripOverrideKeys base toRemove)"
proof (cases "isPlainObject toRemove")
  case True
  assume "isPlainObject base"
  with True obtain bs rs where b: "base = Obj bs" and r: "toRemove = Obj rs"
    by (cases base; cases toRemove) auto
  with strip_loop_plain[of bs rs] show ?thesis by (auto simp: stripOverrideKeys_plain)
next
  case False
  assume "isPlainObject base"
  with False show ?thesis by (simp add: stripOverrideKeys_not_plain)
qed

lemma get_path_own_prop:
  "get_path v (k # p) = (case own_prop v k of None \<Rightarrow> None | Some c \<Rightarrow> get_path c p)"
  by (cases v) (auto simp: own_prop_def)

lemma stripOverrideKeys_removes_leaves:
  "json_compatible toRemove \<Longrightarrow> isPlainObject base \<Longrightarrow> isPlainObject toRemove \<Longrightarrow>
   get_path toRemove p = Some v \<Longrightarrow> \<not> isPlainObject v \<Longrightarrow>
   get_path (stripOverrideKeys base toRemove) p = None"
proof (induction p arbitrary: base toRemove)
  case Nil
  then show ?case by simp
next
  case (Cons k p)
  from Cons.prems(4) obtain rv where rv: "own_prop toRemove k = Some rv" "get_path rv p = Some v"
    by (auto simp: get_path_own_prop split: option.splits)
  have d: "distinct (map fst (entries toRemove))" using Cons.prems(1) by (rule json_compatible_distinct)
  have jrv: "json_compatible rv"
    using Cons.prems(1,3) rv(1) by (cases toRemove) (auto simp: own_prop_def list_all_iff dest!: map_of_SomeD)
  show ?case
  proof (cases "own_prop base k")
    case None
    with rv show ?thesis
      by (simp add: get_path_own_prop stripOverrideKeys_lookup[OF Cons.prems(2,3) d])
  next
    case (Some cv)
    show ?thesis
    proof (cases "strip_value cv rv")
      case None
      with rv Some show ?thesis
        by (simp add: get_path_own_prop stripOverrideKeys_lookup[OF Cons.prems(2,3) d])
    next
      case sv: (Some s)
      then have pl: "isPlainObject rv" "isPlainObject cv" and s: "s = stripOverrideKeys cv rv"
        by (auto simp: strip_value_def split: if_splits)
      have "get_path (stripOverrideKeys cv rv) p = None"
        by (rule Cons.IH[OF jrv pl(2) pl(1) rv(2) Cons.prems(5)])
      with rv Some sv s show ?thesis
        by (simp add: get_path_own_prop stripOverrideKeys_lookup[OF Cons.prems(2,3) d])
    qed
  qed
qed

lemma deepMerge_not_plain:
  "\<not> (isPlainObject base \<and> isPlainObject extra) \<Longrightarrow> deepMerge base extra = extra"
  by (auto simp: deepMerge.simps)

lemma deepMerge_plain: "deepMerge (Obj bs) (Obj es) = Obj (merge_loop bs es)"
  by (simp add: deepMerge.simps)

lemma merge_loop_lookup:
  "distinct (map fst es) \<Longrightarrow>
   map_of (merge_loop rs es) k =
     (case map_of es k of
        None \<Rightarrow> map_of rs k
      | Some ev \<Rightarrow> (case map_of rs k of None \<Rightarrow> Some ev | Some bv \<Rightarrow> Some (deepMerge bv ev)))"
proof (induction es arbitrary: rs)
  case Nil
  then show ?case by simp
next
  case (Cons kv es)
  obtain key ev where kv: "kv = (key, ev)" by (cases kv)
  from Cons.prems kv have d: "distinct (map fst es)" and nk: "map_of es key = None"
    by (auto simp: map_of_eq_None_iff)
  note IH = Cons.IH[OF d]
  show ?case
  proof (cases "map_of rs key")
    case None
    with IH[of "AList.update key ev rs"] nk kv show ?thesis
      by (auto simp: update_conv' split: option.splits)
  next
    case (Some bv)
    with IH[of "AList.update key (deepMerge bv ev) rs"] nk kv show ?thesis
      by (auto simp: update_conv' split: option.splits)
  qed
qed

lemma mergeOverrides_lookup:
  assumes "isPlainObject base" "isPlainObject extra" "distinct (map fst (entries extra))"
  shows "own_prop (mergeOverrides base extra) k =
     (case own_prop extra k of
        None \<Rightarrow> own_prop base k
      | Some ev \<Rightarrow> (case own_prop base k of None \<Rightarrow> Some ev | Some bv \<Rightarrow> Some (deepMerge bv ev)))"
proof -
  from assms obtain bs es where b: "base = Obj bs" and e: "extra = Obj es"
    by (cases base; cases extra) auto
  from assms(3) merge_loop_lookup[of es bs k] show ?thesis
    unfolding b e by (simp add: mergeOverrides_def deepMerge_plain own_prop_def cong: option.case_cong)
qed

section \<open>Failures of the clone, documents without secrets\<close>

text \<open>
  A JSON-compatible value has no \<open>toJSON\<close> method. By its equations \<open>json_clone\<close>
  fails on a BigInt and on nothing else; the lemmas on \<open>cloneConfig\<close> and
  \<open>extractMcpSecrets\<close> state this for the values where the equations are those of
  \<open>JSON.stringify\<close>.
\<close>

lemma json_compatible_no_toJSON:
  "json_compatible v \<Longrightarrow> \<not> has_toJSON_method v"
proof (induction v rule: has_toJSON_method.induct)
  case (1 proto props)
  from "1.prems" have p: "proto = JObjectPrototype" by simp
  have "js_get (JObj proto props) ''toJSON'' \<noteq> JFunction"
  proof (cases "map_of props ''toJSON''")
    case None
    then show ?thesis by (simp add: p js_get.simps object_prototype_methods_def)
  next
    case (Some w)
    then have "(''toJSON'', w) \<in> set props" by (rule map_of_SomeD)
    with "1.prems" have "json_compatible w" by (auto simp: list_all_iff)
    then have "w \<noteq> JFunction" by auto
    with Some show ?thesis by (simp add: p js_get.simps)
  qed
  moreover have "\<not> list_ex (\<lambda>kv. has_toJSON_method (snd kv)) props"
    using 1 by (auto simp: list_ex_iff list_all_iff)
  ultimately show ?case by simp
next
  case (2 xs)
  then show ?case by (auto simp: list_ex_iff list_all_iff)
qed auto







lemma placeholder_not_secret: "placeholder_value v \<Longrightarrow> \<not> isSecretString v"
  by (cases v) auto

lemma secret_pathE:
  assumes "secret_path p"
  obtains s h where "p = [''mcp'', s, ''headers'', h]"
  | s where "p = [''mcp'', s, ''oauth'', ''clientSecret'']"
  using assms
  by (auto simp: secret_path_def elim!: header_path.elims client_secret_path.elims)

lemma get_path_plain:
  "json_compatible D \<Longrightarrow> get_path D (k # p) = Some v \<Longrightarrow>
   \<exists>c. map_of (entries D) k = Some c \<and> js_get D k = c \<and> isPlainObject D \<and> json_compatible c \<and> get_path c p = Some v"
proof -
  assume jc: "json_compatible D" and g: "get_path D (k # p) = Some v"
  from g obtain pr ps where D: "D = JObj pr ps" by (cases D) auto
  with jc have pr: "pr = JObjectPrototype" by simp
  from g D obtain c where c: "map_of ps k = Some c" "get_path c p = Some v"
    by (auto split: option.splits)
  have "json_compatible c" using json_compatible_lookup jc D c(1) by blast
  with D pr c show ?thesis by (simp add: js_get_Obj)
qed

lemma already_sanitized_no_secret:
  assumes jc: "json_compatible D" and a: "already_sanitized D"
  shows "\<not> secret_site D p"
proof
  assume site: "secret_site D p"
  then obtain v where sp: "secret_path p" and g: "get_path D p = Some v" and sec: "isSecretString v"
    by (auto simp: secret_site_def split: option.splits)
  from sp show False
  proof (cases rule: secret_pathE)
    case (1 s h)
    from get_path_plain[OF jc g[unfolded 1]] obtain mcp where
      m: "js_get D ''mcp'' = mcp" "json_compatible mcp" "get_path mcp [s, ''headers'', h] = Some v" by blast
    from get_path_plain[OF m(2,3)] obtain sc where
      s: "map_of (entries mcp) s = Some sc" "isPlainObject mcp" "json_compatible sc" "get_path sc [''headers'', h] = Some v" by blast
    from get_path_plain[OF s(3,4)] obtain hd where
      h: "js_get sc ''headers'' = hd" "isPlainObject sc" "json_compatible hd" "get_path hd [h] = Some v" by blast
    from get_path_plain[OF h(3,4)] have
      v: "map_of (entries hd) h = Some v" "isPlainObject hd" by auto
    from s(1) have sin: "(s, sc) \<in> set (entries mcp)" by (rule map_of_SomeD)
    from v(1) have hin: "(h, v) \<in> set (entries hd)" by (rule map_of_SomeD)
    from a m(1) s(2) sin have "isPlainObject (snd (s, sc)) \<longrightarrow>
           (isPlainObject (js_get (snd (s, sc)) ''headers'') \<longrightarrow>
              list_all (\<lambda>header. placeholder_value (snd header))
                (entries (js_get (snd (s, sc)) ''headers'')))"
      unfolding already_sanitized_def list_all_iff by blast
    with h(1,2) v(2) hin have "placeholder_value v" by (auto simp: list_all_iff)
    with sec show False by (simp add: placeholder_not_secret)
  next
    case (2 s)
    from get_path_plain[OF jc g[unfolded 2]] obtain mcp where
      m: "js_get D ''mcp'' = mcp" "json_compatible mcp" "get_path mcp [s, ''oauth'', ''clientSecret''] = Some v" by blast
    from get_path_plain[OF m(2,3)] obtain sc where
      s: "map_of (entries mcp) s = Some sc" "isPlainObject mcp" "json_compatible sc" "get_path sc [''oauth'', ''clientSecret''] = Some v" by blast
    from get_path_plain[OF s(3,4)] obtain oa where
      h: "js_get sc ''oauth'' = oa" "isPlainObject sc" "json_compatible oa" "get_path oa [''clientSecret''] = Some v" by blast
    from get_path_plain[OF h(3,4)] have
      v: "map_of (entries oa) ''clientSecret'' = Some v" "isPlainObject oa" by auto
    from s(1) have sin: "(s, sc) \<in> set (entries mcp)" by (rule map_of_SomeD)
    from a m(1) s(2) sin have "isPlainObject (snd (s, sc)) \<longrightarrow>
           (isPlainObject (js_get (snd (s, sc)) ''oauth'') \<longrightarrow>
              (case map_of (entries (js_get (snd (s, sc)) ''oauth'')) ''clientSecret'' of
                 None \<Rightarrow> True
               | Some v \<Rightarrow> placeholder_value v))"
      unfolding already_sanitized_def list_all_iff by blast
    with h(1,2) v have "placeholder_value v" by simp
    with sec show False by (simp add: placeholder_not_secret)
  qed
qed

section \<open>Lemmas shared by the claims\<close>

lemma secret_site_same_length:
  assumes "secret_path p" "prefix p q" "secret_site D q"
  shows "q = p"
proof -
  from assms(3) have "secret_path q" by (simp add: secret_site_def)
  then have "length q = 4" by (rule secret_path_length)
  moreover from assms(1) have "length p = 4" by (rule secret_path_length)
  ultimately show ?thesis using assms(2) by (auto simp: prefix_def)
qed

lemma doc_github_compatible: "json_compatible doc_github"
  by code_simp

lemma doc_github_result: "extractMcpSecrets doc_github = Inr result_github"
  by code_simp

lemma header_secret_sanitized:
  assumes jc: "json_compatible D" and ex: "extractMcpSecrets D = Inr r"
    and g: "get_path D [''mcp'', s, ''headers'', h] = Some v" and sec: "isSecretString v"
  shows "get_path (sanitizedConfig r) [''mcp'', s, ''headers'', h] =
     Some (JStr (buildHeaderPlaceholder (js_String v) (buildHeaderEnvVar s h) h))"
proof -
  have "sanitizedConfig r = sanitize_at [] D" using jc ex by (rule extractMcpSecrets_sanitized)
  moreover have "secret_path ([] @ [''mcp'', s, ''headers'', h])" by (simp add: secret_path_def)
  from sanitize_at_secret[OF jc this g]
  have "get_path (sanitize_at [] D) [''mcp'', s, ''headers'', h] =
     Some (JStr (placeholder_for [''mcp'', s, ''headers'', h] v))" using sec by simp
  ultimately show ?thesis by simp
qed

lemma client_secret_sanitized:
  assumes jc: "json_compatible D" and ex: "extractMcpSecrets D = Inr r"
    and g: "get_path D [''mcp'', s, ''oauth'', ''clientSecret''] = Some v" and sec: "isSecretString v"
  shows "get_path (sanitizedConfig r) [''mcp'', s, ''oauth'', ''clientSecret''] =
     Some (JStr (''{env:'' @ buildEnvVar s ''OAUTH_CLIENT_SECRET'' @ ''}''))"
proof -
  have "sanitizedConfig r = sanitize_at [] D" using jc ex by (rule extractMcpSecrets_sanitized)
  moreover have "secret_path ([] @ [''mcp'', s, ''oauth'', ''clientSecret''])" by (simp add: secret_path_def)
  from sanitize_at_secret[OF jc this g]
  have "get_path (sanitize_at [] D) [''mcp'', s, ''oauth'', ''clientSecret''] =
     Some (JStr (placeholder_for [''mcp'', s, ''oauth'', ''clientSecret''] v))" using sec by simp
  ultimately show ?thesis by simp
qed

lemma buildHeaderPlaceholder_shape:
  "\<exists>scheme. buildHeaderPlaceholder val envVar h = scheme @ ''{env:'' @ envVar @ ''}''"
  by (auto simp: buildHeaderPlaceholder_def split: option.splits intro: exI[of _ "[]"])

lemma buildHeaderEnvVar_runs:
  "buildHeaderEnvVar s h =
     (if is_env_name h then h
      else ''OPENCODE_MCP_'' @ env_token_of_runs s ''SERVER'' @ ''_'' @ env_token_of_runs h ''VALUE'')"
  by (simp add: buildHeaderEnvVar_def buildEnvVar_def toEnvToken_runs env_token_of_runs_def)

lemma own_prop_json_compatible:
  "json_compatible v \<Longrightarrow> own_prop v k = Some c \<Longrightarrow> json_compatible c"
  by (cases v) (auto simp: own_prop_def list_all_iff dest!: map_of_SomeD)

lemma mergeOverrides_is_plain:
  "isPlainObject base \<Longrightarrow> isPlainObject extra \<Longrightarrow> isPlainObject (mergeOverrides base extra)"
  by (cases base; cases extra) (auto simp: mergeOverrides_def deepMerge_plain)

lemma sanitized_frame:
  assumes jc: "json_compatible D" and ex: "extractMcpSecrets D = Inr r"
    and ns: "\<And>q. prefix p q \<Longrightarrow> \<not> secret_site D q"
  shows "get_path (sanitizedConfig r) p = get_path D p"
proof -
  have san: "sanitizedConfig r = sanitize_at [] D" using jc ex by (rule extractMcpSecrets_sanitized)
  show ?thesis unfolding san
  proof (rule sanitize_at_frame[OF jc])
    fix q w assume "prefix p q" "secret_path ([] @ q)" "get_path D q = Some w"
    with ns[of q] show "\<not> isSecretString w" by (simp add: secret_site_def)
  qed
qed

lemma overrides_only_secrets:
  assumes "json_compatible D" and "extractMcpSecrets D = Inr r"
    and "get_path (secretOverrides r) p = Some w" and "\<not> secret_site D p"
  shows "is_JObj w \<and> length p < 4"
  using extractMcpSecrets_overrides_inv[OF assms(1,2)] assms(3,4)
  by (auto simp: overrides_inv_def)

lemma non_secret_value_untouched:
  assumes jc: "json_compatible D" and ex: "extractMcpSecrets D = Inr r"
    and sp: "secret_path p" and g: "get_path D p = Some v" and nsec: "\<not> isSecretString v"
  shows "get_path (sanitizedConfig r) p = Some v \<and> get_path (secretOverrides r) p = None"
proof -
  have ns: "\<not> secret_site D p" using g nsec by (simp add: secret_site_def)
  have "\<not> secret_site D q" if "prefix p q" for q
    using secret_site_same_length[OF sp that] ns by blast
  then have "get_path (sanitizedConfig r) p = get_path D p"
    by (rule sanitized_frame[OF jc ex])
  moreover have "get_path (secretOverrides r) p = None"
  proof (cases "get_path (secretOverrides r) p")
    case (Some w)
    from overrides_only_secrets[OF jc ex Some ns] secret_path_length[OF sp] show ?thesis by simp
  qed simp
  ultimately show ?thesis using g by simp
qed


section \<open>Documents without \<open>__proto__\<close> names\<close>

text \<open>
  When no secret of the document sits under a server or a header named \<open>__proto__\<close>,
  \<open>setNestedValue\<close> only ever updates own properties of plain objects. Then every secret
  is recorded in the override tree at its own path, and merging the overrides into the
  sanitized document gives the document again (the merge is the modelled \<open>deepMerge\<close>).
\<close>

lemma extract_headers_fold:
  "snd (extract_headers s hs (hdrs, T)) = fold record_secret (header_sites s hs) T"
  by (induction hs arbitrary: hdrs T) (auto simp: header_sites_def record_secret_def Let_def)

lemma extract_server_headers_fold:
  "snd (extract_server_headers s sc T) =
     fold record_secret
       (if isPlainObject (js_get sc ''headers'')
        then header_sites s (entries (js_get sc ''headers'')) else []) T"
  by (simp add: extract_server_headers_def Let_def case_prod_beta extract_headers_fold)

lemma extract_server_oauth_fold:
  "snd (extract_server_oauth s sc T) =
     fold record_secret
       (if isPlainObject (js_get sc ''oauth'') \<and>
           isSecretString (js_get (js_get sc ''oauth'') ''clientSecret'')
        then [([''mcp'', s, ''oauth'', ''clientSecret''], js_get (js_get sc ''oauth'') ''clientSecret'')]
        else []) T"
  by (simp add: extract_server_oauth_def Let_def record_secret_def)

lemma extract_server_fold:
  "snd (extract_server s (Obj ps) T) = fold record_secret (server_sites s (Obj ps)) T"
proof -
  obtain sc1 T1 where st: "extract_server_headers s (Obj ps) T = (sc1, T1)"
    by (cases "extract_server_headers s (Obj ps) T")
  have o1: "js_get sc1 ''oauth'' = js_get (Obj ps) ''oauth''"
    using extract_server_headers_oauth[of s ps T] st by simp
  have T1: "T1 = fold record_secret
       (if isPlainObject (js_get (Obj ps) ''headers'')
        then header_sites s (entries (js_get (Obj ps) ''headers'')) else []) T"
    using extract_server_headers_fold[of s "Obj ps" T] st by simp
  have "snd (extract_server s (Obj ps) T) = snd (extract_server_oauth s sc1 T1)"
    using st by (simp add: extract_server_def)
  also have "\<dots> = fold record_secret
       (if isPlainObject (js_get (Obj ps) ''oauth'') \<and>
           isSecretString (js_get (js_get (Obj ps) ''oauth'') ''clientSecret'')
        then [([''mcp'', s, ''oauth'', ''clientSecret''], js_get (js_get (Obj ps) ''oauth'') ''clientSecret'')]
        else []) T1"
    unfolding extract_server_oauth_fold o1 ..
  finally show ?thesis unfolding T1 server_sites_def by simp
qed

lemma extract_servers_fold:
  "snd (extract_servers ms (mcp, T)) = fold record_secret (mcp_sites ms) T"
proof (induction ms arbitrary: mcp T)
  case Nil
  then show ?case by (simp add: mcp_sites_def)
next
  case (Cons kv ms)
  obtain s sc where kv: "kv = (s, sc)" by (cases kv)
  show ?case
  proof (cases "isPlainObject sc")
    case False
    with Cons kv show ?thesis by (simp add: mcp_sites_def)
  next
    case True
    then obtain ps where sc: "sc = Obj ps" by (cases sc) auto
    from Cons[of _ "snd (extract_server s (Obj ps) T)"] True kv sc show ?thesis
      by (simp add: mcp_sites_def case_prod_beta extract_server_fold)
  qed
qed

lemma extractMcpSecrets_fold:
  assumes "json_compatible D" "extractMcpSecrets D = Inr r"
  shows "secretOverrides r = fold record_secret (document_sites D) (Obj [])"
  using assms
  by (auto simp: extractMcpSecrets_def cloneConfig_id Let_def case_prod_beta document_sites_def
        extract_servers_fold split: if_splits)

lemma reaches_proto_setter_Obj:
  "k \<noteq> ''__proto__'' \<Longrightarrow> \<not> reaches_proto_setter (Obj ps) k"
  by simp

lemma js_set_plain: "k \<noteq> ''__proto__'' \<Longrightarrow> js_set (Obj ps) k v = Obj (AList.update k v ps)"
  by (simp add: js_set.simps)

lemma setNestedValue_plain_last:
  "k \<noteq> ''__proto__'' \<Longrightarrow> setNestedValue (Obj ps) [k] v = Obj (AList.update k v ps)"
  by (simp add: js_set_plain)

lemma setNestedValue_plain_step:
  assumes "k \<noteq> ''__proto__''"
  shows "setNestedValue (Obj ps) (k # k' # path) v =
     Obj (AList.update k (setNestedValue (plain_child ps k) (k' # path) v) ps)"
proof (cases "isPlainObject (js_get (Obj ps) k)")
  case True
  then obtain c where c: "map_of ps k = Some c" "isPlainObject c"
    by (auto simp: plain_js_get_Obj)
  then have "js_get (Obj ps) k = c" by (simp add: js_get_Obj)
  with True c show ?thesis by (simp add: write_back_own plain_child_def)
next
  case False
  have pc: "plain_child ps k = Obj []"
    using False by (auto simp: plain_child_def plain_js_get_Obj split: option.splits)
  have g: "js_get (Obj (AList.update k (Obj []) ps)) k = Obj []"
    by (simp add: js_get_Obj update_conv')
  from False assms show ?thesis
    by (simp add: js_set_plain g pc write_back_own update_conv' update_update_same)
qed

declare setNestedValue.simps [simp del]

lemma good_tree_Obj:
  "good_tree (Obj ps) \<longleftrightarrow> distinct (map fst ps) \<and> (\<forall>kv\<in>set ps. json_compatible (snd kv))"
  by (auto simp: good_tree_def list_all_iff)

lemma good_tree_update:
  assumes "good_tree (Obj ps)" "json_compatible v"
  shows "good_tree (Obj (AList.update k v ps))"
proof -
  have "distinct (map fst (AList.update k v ps))" using assms(1) by (simp add: good_tree_Obj distinct_update)
  moreover have "json_compatible (snd kv)" if "kv \<in> set (AList.update k v ps)" for kv
  proof -
    from that have "map_of (AList.update k v ps) (fst kv) = Some (snd kv)"
      using \<open>distinct (map fst (AList.update k v ps))\<close> by (simp add: map_of_in_set)
    then have "(fst kv = k \<and> snd kv = v) \<or> map_of ps (fst kv) = Some (snd kv)"
      by (auto simp: update_conv' split: if_splits)
    then show ?thesis
      using assms by (auto simp: good_tree_Obj dest!: map_of_SomeD)
  qed
  ultimately show ?thesis by (simp add: good_tree_Obj)
qed

lemma good_tree_plain_child: "good_tree (Obj ps) \<Longrightarrow> good_tree (plain_child ps k)"
  by (auto simp: plain_child_def good_tree_def list_all_iff split: option.splits dest!: map_of_SomeD)

lemma plain_child_Obj: "\<exists>cs. plain_child ps k = Obj cs"
proof (cases "map_of ps k")
  case None
  then show ?thesis by (simp add: plain_child_def)
next
  case (Some c)
  then show ?thesis by (cases c) (auto simp: plain_child_def)
qed

lemma setNestedValue_good:
  "good_tree T \<Longrightarrow> ''__proto__'' \<notin> set p \<Longrightarrow> p \<noteq> [] \<Longrightarrow> json_compatible v \<Longrightarrow>
   good_tree (setNestedValue T p v)"
proof (induction p arbitrary: T)
  case Nil
  then show ?case by simp
next
  case (Cons k p)
  from Cons.prems(1) obtain ps where T: "T = Obj ps" by (cases T) (auto simp: good_tree_def)
  from Cons.prems(2) have k: "k \<noteq> ''__proto__''" and np: "''__proto__'' \<notin> set p" by auto
  show ?case
  proof (cases p)
    case Nil
    with Cons.prems T k show ?thesis by (simp add: setNestedValue_plain_last good_tree_update)
  next
    case (Cons k' path)
    have "good_tree (setNestedValue (plain_child ps k) p v)"
      by (rule Cons.IH) (use Cons.prems T np Cons in \<open>auto intro: good_tree_plain_child\<close>)
    then have "json_compatible (setNestedValue (plain_child ps k) p v)" by (simp add: good_tree_def)
    with Cons.prems(1) T have "good_tree (Obj (AList.update k (setNestedValue (plain_child ps k) p v) ps))"
      by (intro good_tree_update) auto
    with T k Cons show ?thesis by (simp add: setNestedValue_plain_step)
  qed
qed

lemma setNestedValue_written:
  "good_tree T \<Longrightarrow> ''__proto__'' \<notin> set p \<Longrightarrow> p \<noteq> [] \<Longrightarrow>
   get_path (setNestedValue T p v) p = Some v"
proof (induction p arbitrary: T)
  case Nil
  then show ?case by simp
next
  case (Cons k p)
  from Cons.prems(1) obtain ps where T: "T = Obj ps" by (cases T) (auto simp: good_tree_def)
  from Cons.prems(2) have k: "k \<noteq> ''__proto__''" and np: "''__proto__'' \<notin> set p" by auto
  show ?case
  proof (cases p)
    case Nil
    with T k show ?thesis by (simp add: setNestedValue_plain_last update_conv')
  next
    case (Cons k' path)
    have "get_path (setNestedValue (plain_child ps k) p v) p = Some v"
      by (rule Cons.IH) (use Cons.prems T np Cons in \<open>auto intro: good_tree_plain_child\<close>)
    with T k Cons show ?thesis by (simp add: setNestedValue_plain_step update_conv')
  qed
qed

lemma setNestedValue_elsewhere:
  "good_tree T \<Longrightarrow> ''__proto__'' \<notin> set p \<Longrightarrow> p \<noteq> [] \<Longrightarrow>
   \<not> prefix q p \<Longrightarrow> \<not> prefix p q \<Longrightarrow>
   get_path (setNestedValue T p v) q = get_path T q"
proof (induction p arbitrary: T q)
  case Nil
  then show ?case by simp
next
  case (Cons k p)
  from Cons.prems(1) obtain ps where T: "T = Obj ps" by (cases T) (auto simp: good_tree_def)
  from Cons.prems(2) have k: "k \<noteq> ''__proto__''" and np: "''__proto__'' \<notin> set p" by auto
  from Cons.prems(4) obtain k2 r where q: "q = k2 # r" by (cases q) auto
  show ?case
  proof (cases "k2 = k")
    case False
    then show ?thesis
      using T k q by (cases p) (simp_all add: setNestedValue_plain_last setNestedValue_plain_step update_conv')
  next
    case True
    with Cons.prems(4,5) q have nr: "\<not> prefix r p" "\<not> prefix p r" by auto
    show ?thesis
    proof (cases p)
      case Nil
      with nr show ?thesis by simp
    next
      case (Cons k' path)
      have IH: "get_path (setNestedValue (plain_child ps k) p v) r = get_path (plain_child ps k) r"
        by (rule Cons.IH) (use Cons.prems T np Cons nr in \<open>auto intro: good_tree_plain_child\<close>)
      from nr(1) obtain r1 rs where r: "r = r1 # rs" by (cases r) auto
      have "get_path (plain_child ps k) r = get_path (Obj ps) (k # r)"
      proof (cases "map_of ps k")
        case None
        then show ?thesis by (simp add: plain_child_def r)
      next
        case (Some c)
        show ?thesis
        proof (cases "isPlainObject c")
          case True
          with Some show ?thesis by (simp add: plain_child_def)
        next
          case False
          from Cons.prems(1) T Some have "json_compatible c"
            by (auto simp: good_tree_Obj dest!: map_of_SomeD)
          with False have "get_path c r = None" unfolding r by (cases c) auto
          with Some False show ?thesis by (simp add: plain_child_def r)
        qed
      qed
      with IH T k True q Cons show ?thesis
        by (simp add: setNestedValue_plain_step update_conv')
    qed
  qed
qed

lemma header_sites_member:
  "(p, v) \<in> set (header_sites s hs) \<longleftrightarrow>
   (\<exists>h. p = [''mcp'', s, ''headers'', h] \<and> (h, v) \<in> set hs \<and> isSecretString v)"
  by (force simp: header_sites_def)

lemma server_sites_member:
  "(p, v) \<in> set (server_sites s sc) \<longleftrightarrow>
   (isPlainObject (js_get sc ''headers'') \<and>
      (\<exists>h. p = [''mcp'', s, ''headers'', h] \<and> (h, v) \<in> set (entries (js_get sc ''headers'')) \<and>
           isSecretString v)) \<or>
   (isPlainObject (js_get sc ''oauth'') \<and> p = [''mcp'', s, ''oauth'', ''clientSecret''] \<and>
      v = js_get (js_get sc ''oauth'') ''clientSecret'' \<and> isSecretString v)"
  by (auto simp: server_sites_def header_sites_member)

lemma mcp_sites_member:
  "(p, v) \<in> set (mcp_sites ms) \<longleftrightarrow>
   (\<exists>s sc. (s, sc) \<in> set ms \<and> isPlainObject sc \<and> (p, v) \<in> set (server_sites s sc))"
  by (force simp: mcp_sites_def split: if_splits)

lemma document_sites_complete:
  assumes jc: "json_compatible D" and sp: "secret_path p"
    and g: "get_path D p = Some v" and sec: "isSecretString v"
  shows "(p, v) \<in> set (document_sites D)"
  using sp
proof (cases rule: secret_pathE)
  case (1 s h)
  from get_path_plain[OF jc g[unfolded 1]] obtain m where
    m: "map_of (entries D) ''mcp'' = Some m" "js_get D ''mcp'' = m" "json_compatible m"
       "get_path m [s, ''headers'', h] = Some v" by blast
  from get_path_plain[OF m(3,4)] obtain sc where
    sc: "map_of (entries m) s = Some sc" "isPlainObject m" "json_compatible sc"
        "get_path sc [''headers'', h] = Some v" by blast
  from get_path_plain[OF sc(3,4)] obtain ho where
    ho: "js_get sc ''headers'' = ho" "isPlainObject sc" "json_compatible ho"
        "get_path ho [h] = Some v" by blast
  from get_path_plain[OF ho(3,4)] obtain c where
    c: "map_of (entries ho) h = Some c" "isPlainObject ho" "get_path c [] = Some v" by blast
  then have hv: "(h, v) \<in> set (entries ho)" by (auto dest: map_of_SomeD)
  have "(p, v) \<in> set (server_sites s sc)"
    unfolding server_sites_member using ho(1) c(2) hv sec 1 by auto
  moreover have "(s, sc) \<in> set (entries m)" using sc(1) by (rule map_of_SomeD)
  ultimately have "(p, v) \<in> set (mcp_sites (entries m))"
    unfolding mcp_sites_member using ho(2) by blast
  then show ?thesis using m(2) sc(2) by (simp add: document_sites_def)
next
  case (2 s)
  from get_path_plain[OF jc g[unfolded 2]] obtain m where
    m: "map_of (entries D) ''mcp'' = Some m" "js_get D ''mcp'' = m" "json_compatible m"
       "get_path m [s, ''oauth'', ''clientSecret''] = Some v" by blast
  from get_path_plain[OF m(3,4)] obtain sc where
    sc: "map_of (entries m) s = Some sc" "isPlainObject m" "json_compatible sc"
        "get_path sc [''oauth'', ''clientSecret''] = Some v" by blast
  from get_path_plain[OF sc(3,4)] obtain ob where
    ob: "js_get sc ''oauth'' = ob" "isPlainObject sc" "json_compatible ob"
        "get_path ob [''clientSecret''] = Some v" by blast
  from get_path_plain[OF ob(3,4)] obtain c where
    c: "js_get ob ''clientSecret'' = c" "isPlainObject ob" "get_path c [] = Some v" by blast
  then have cv: "js_get ob ''clientSecret'' = v" by simp
  have "(p, v) \<in> set (server_sites s sc)"
    unfolding server_sites_member using ob(1) c(2) cv sec 2 by auto
  moreover have "(s, sc) \<in> set (entries m)" using sc(1) by (rule map_of_SomeD)
  ultimately have "(p, v) \<in> set (mcp_sites (entries m))"
    unfolding mcp_sites_member using ob(2) by blast
  then show ?thesis using m(2) sc(2) by (simp add: document_sites_def)
qed

lemma plain_js_get:
  assumes "json_compatible v" "isPlainObject (js_get v k)"
  shows "\<exists>ps cs. v = Obj ps \<and> map_of ps k = Some (Obj cs) \<and> js_get v k = Obj cs \<and>
           json_compatible (Obj cs)"
proof -
  from assms obtain ps where v: "v = Obj ps" by (cases v) (auto simp: js_get.simps)
  from assms(2) obtain c where c: "map_of ps k = Some c" "isPlainObject c"
    unfolding v plain_js_get_Obj by blast
  then obtain cs where cs: "c = Obj cs" by (cases c) auto
  have "js_get v k = c" using c(1) by (simp add: v js_get_Obj)
  moreover have "json_compatible c" using assms(1) c(1) unfolding v by (rule json_compatible_lookup)
  ultimately show ?thesis using v c cs by simp
qed

lemma document_sites_sound:
  assumes jc: "json_compatible D" and mem: "(p, v) \<in> set (document_sites D)"
  shows "secret_path p \<and> get_path D p = Some v \<and> isSecretString v"
proof -
  from mem have pm: "isPlainObject (js_get D ''mcp'')"
    and mem1: "(p, v) \<in> set (mcp_sites (entries (js_get D ''mcp'')))"
    by (auto simp: document_sites_def split: if_splits)
  from plain_js_get[OF jc pm] obtain ps ms where
    D: "D = Obj ps" "map_of ps ''mcp'' = Some (Obj ms)" "js_get D ''mcp'' = Obj ms"
       "json_compatible (Obj ms)" by blast
  from mem1 D(3) obtain s sc where
    s: "(s, sc) \<in> set ms" "isPlainObject sc" "(p, v) \<in> set (server_sites s sc)"
    unfolding mcp_sites_member by auto
  from D(4) have dms: "distinct (map fst ms)" by simp
  from map_of_in_set[OF dms s(1)] have ls: "map_of ms s = Some sc" by simp
  have jsc: "json_compatible sc" using json_compatible_member[OF D(4) s(1)] by simp
  from s(3) consider
    (hdr) h where "isPlainObject (js_get sc ''headers'')" "p = [''mcp'', s, ''headers'', h]"
      "(h, v) \<in> set (entries (js_get sc ''headers''))" "isSecretString v"
  | (oauth) "isPlainObject (js_get sc ''oauth'')" "p = [''mcp'', s, ''oauth'', ''clientSecret'']"
      "v = js_get (js_get sc ''oauth'') ''clientSecret''" "isSecretString v"
    unfolding server_sites_member by blast
  then show ?thesis
  proof cases
    case hdr
    from plain_js_get[OF jsc hdr(1)] obtain ss hs where
      sc: "sc = Obj ss" "map_of ss ''headers'' = Some (Obj hs)" "js_get sc ''headers'' = Obj hs"
          "json_compatible (Obj hs)" by blast
    from sc(4) have "distinct (map fst hs)" by simp
    from map_of_in_set[OF this, of "(h, v)"] hdr(3) sc(3) have "map_of hs h = Some v" by simp
    then have "get_path D p = Some v" using D(1,2) ls sc(1,2) hdr(2) by simp
    then show ?thesis using hdr(2,4) by (simp add: secret_path_def)
  next
    case oauth
    from plain_js_get[OF jsc oauth(1)] obtain ss os where
      sc: "sc = Obj ss" "map_of ss ''oauth'' = Some (Obj os)" "js_get sc ''oauth'' = Obj os"
          "json_compatible (Obj os)" by blast
    from oauth(3,4) sc(3) have "map_of os ''clientSecret'' = Some v"
      using secret_js_get[of os "''clientSecret''"] by simp
    then have "get_path D p = Some v" using D(1,2) ls sc(1,2) oauth(2) by simp
    then show ?thesis using oauth(2,4) by (simp add: secret_path_def)
  qed
qed

lemma record_secret_apply: "record_secret (p, v) T = setNestedValue T p v"
  by (simp add: record_secret_def)

lemma secret_paths_apart:
  assumes "secret_path p" "secret_path q" "p \<noteq> q"
  shows "\<not> prefix q p \<and> \<not> prefix p q"
proof -
  from assms(1,2) have "length p = 4" "length q = 4" by (auto dest: secret_path_length)
  with assms(3) show ?thesis by (auto simp: prefix_def)
qed

lemma fold_record_secret_present:
  assumes "good_tree T"
    and "\<And>p v. (p, v) \<in> set sites \<Longrightarrow>
           secret_path p \<and> get_path D p = Some v \<and> isSecretString v \<and> ''__proto__'' \<notin> set p"
  shows "good_tree (fold record_secret sites T) \<and>
         (\<forall>p v. secret_path p \<longrightarrow> get_path D p = Some v \<longrightarrow>
            ((p, v) \<in> set sites \<or> get_path T p = Some v) \<longrightarrow>
            get_path (fold record_secret sites T) p = Some v)"
  using assms
proof (induction sites arbitrary: T)
  case Nil
  then show ?case by simp
next
  case (Cons site sites)
  obtain p0 v0 where site: "site = (p0, v0)" by (cases site)
  from Cons.prems(2)[of p0 v0] site have s0: "secret_path p0" "get_path D p0 = Some v0"
    "isSecretString v0" "''__proto__'' \<notin> set p0" by auto
  from s0(1) have ne: "p0 \<noteq> []" by (auto dest: secret_path_length)
  from s0(3) have jv: "json_compatible v0" by (cases v0) auto
  let ?T = "setNestedValue T p0 v0"
  have gT: "good_tree ?T" using Cons.prems(1) s0(4) ne jv by (rule setNestedValue_good)
  have IH: "good_tree (fold record_secret sites ?T) \<and>
         (\<forall>p v. secret_path p \<longrightarrow> get_path D p = Some v \<longrightarrow>
            ((p, v) \<in> set sites \<or> get_path ?T p = Some v) \<longrightarrow>
            get_path (fold record_secret sites ?T) p = Some v)"
    by (rule Cons.IH[OF gT]) (use Cons.prems(2) in auto)
  have step: "get_path ?T p = Some v"
    if "secret_path p" "get_path D p = Some v" "(p, v) = (p0, v0) \<or> get_path T p = Some v" for p v
  proof (cases "p = p0")
    case True
    with that(2) s0(2) have "v = v0" by simp
    with True show ?thesis using setNestedValue_written[OF Cons.prems(1) s0(4) ne] by simp
  next
    case False
    with that(3) have old: "get_path T p = Some v" by auto
    from secret_paths_apart[OF s0(1) that(1)] False have "\<not> prefix p p0" "\<not> prefix p0 p" by auto
    from setNestedValue_elsewhere[OF Cons.prems(1) s0(4) ne this] old show ?thesis by simp
  qed
  show ?case
  proof (intro conjI allI impI)
    show "good_tree (fold record_secret (site # sites) T)"
      using IH by (simp add: site record_secret_apply)
  next
    fix p v
    assume a: "secret_path p" "get_path D p = Some v"
      "(p, v) \<in> set (site # sites) \<or> get_path T p = Some v"
    from a(3) have "(p, v) \<in> set sites \<or> get_path ?T p = Some v"
      using step[OF a(1,2)] site by auto
    with IH a(1,2) have "get_path (fold record_secret sites ?T) p = Some v" by blast
    then show "get_path (fold record_secret (site # sites) T) p = Some v"
      by (simp add: site record_secret_apply)
  qed
qed

lemma fold_record_secret_paths:
  assumes "\<And>p v. (p, v) \<in> set sites \<Longrightarrow> p \<noteq> [] \<and> isSecretString v"
    and "get_path (fold record_secret sites T) q = Some w"
  shows "(q, w) \<in> set sites \<or>
         (is_JObj w \<and> (\<exists>p v. (p, v) \<in> set sites \<and> strict_prefix q p)) \<or>
         get_path T q = Some w"
  using assms
proof (induction sites arbitrary: T)
  case Nil
  then show ?case by simp
next
  case (Cons site sites)
  obtain p0 v0 where site: "site = (p0, v0)" by (cases site)
  from Cons.prems(1)[of p0 v0] site have ne: "p0 \<noteq> []" and sec: "isSecretString v0" by auto
  from sec obtain s0 where v0: "v0 = JStr s0" by (cases v0) auto
  let ?T = "setNestedValue T p0 v0"
  from Cons.prems(2) have g: "get_path (fold record_secret sites ?T) q = Some w"
    by (simp add: site record_secret_apply)
  have "(q, w) \<in> set sites \<or>
         (is_JObj w \<and> (\<exists>p v. (p, v) \<in> set sites \<and> strict_prefix q p)) \<or>
         get_path ?T q = Some w"
  proof (rule Cons.IH)
    show "p \<noteq> [] \<and> isSecretString v" if "(p, v) \<in> set sites" for p v
      using Cons.prems(1)[of p v] that by simp
    show "get_path (fold record_secret sites ?T) q = Some w" by (rule g)
  qed
  moreover have "(q = p0 \<and> w = v0) \<or> (strict_prefix q p0 \<and> is_JObj w) \<or> get_path T q = Some w"
    if "get_path ?T q = Some w"
    using setNestedValue_paths[OF ne that[unfolded v0]] v0 by simp
  ultimately show ?case unfolding site by auto
qed

lemma overrides_record_every_secret:
  assumes jc: "json_compatible D" and ex: "extractMcpSecrets D = Inr r"
    and np: "\<And>p. secret_site D p \<Longrightarrow> ''__proto__'' \<notin> set p"
  shows "good_tree (secretOverrides r)"
    and "secret_site D p \<Longrightarrow> get_path (secretOverrides r) p = get_path D p"
proof -
  have f: "secretOverrides r = fold record_secret (document_sites D) (Obj [])"
    using jc ex by (rule extractMcpSecrets_fold)
  have sites: "secret_path p \<and> get_path D p = Some v \<and> isSecretString v \<and> ''__proto__'' \<notin> set p"
    if "(p, v) \<in> set (document_sites D)" for p v
  proof -
    from document_sites_sound[OF jc that] have s: "secret_path p" "get_path D p = Some v"
      "isSecretString v" by auto
    then have "secret_site D p" by (simp add: secret_site_def)
    from np[OF this] s show ?thesis by simp
  qed
  have g0: "good_tree (Obj [])" by (simp add: good_tree_def)
  note pres = fold_record_secret_present[OF g0 sites, of "document_sites D", simplified f[symmetric]]
  from pres show "good_tree (secretOverrides r)" by simp
  show "get_path (secretOverrides r) p = get_path D p" if "secret_site D p"
  proof -
    from that obtain v where v: "secret_path p" "get_path D p = Some v" "isSecretString v"
      by (auto simp: secret_site_def split: option.splits)
    from document_sites_complete[OF jc v] have "(p, v) \<in> set (document_sites D)" .
    with pres v show ?thesis by simp
  qed
qed

lemma get_path_prefix_object:
  "get_path v (q @ k # r) = Some w \<Longrightarrow> \<exists>c. get_path v q = Some c \<and> is_JObj c"
proof (induction q arbitrary: v)
  case Nil
  then show ?case by (cases v) auto
next
  case (Cons a q)
  then show ?case by (cases v) (auto split: option.splits)
qed

lemma merge_loop_keys:
  "fst ` set es \<subseteq> fst ` set rs \<Longrightarrow> map fst (merge_loop rs es) = map fst rs"
proof (induction es arbitrary: rs)
  case Nil
  then show ?case by simp
next
  case (Cons kv es)
  obtain key ev where kv: "kv = (key, ev)" by (cases kv)
  from Cons.prems kv have k: "key \<in> fst ` set rs" and rest: "fst ` set es \<subseteq> fst ` set rs" by auto
  from k obtain bv where bv: "map_of rs key = Some bv"
    by (cases "map_of rs key") (auto simp: map_of_eq_None_iff)
  have keys: "map fst (AList.update key x rs) = map fst rs" for x
    using k by (simp add: update_keys)
  have "fst ` set es \<subseteq> fst ` set (AList.update key x rs)" for x
    using rest keys[of x] by (metis set_map)
  from Cons.IH[OF this] keys bv kv show ?case by simp
qed

lemma deepMerge_restores:
  assumes "json_compatible v" and "json_compatible ov"
    and "\<And>q w. get_path ov q = Some w \<Longrightarrow>
           (is_JObj w \<and> (\<exists>k r. secret_path (pre @ q @ k # r)) \<and>
              (\<exists>c. get_path v q = Some c \<and> is_JObj c)) \<or>
           (secret_path (pre @ q) \<and> isSecretString w \<and> get_path v q = Some w)"
    and "\<And>q w. secret_path (pre @ q) \<Longrightarrow> get_path v q = Some w \<Longrightarrow> isSecretString w \<Longrightarrow>
           get_path ov q = Some w"
  shows "deepMerge (sanitize_at pre v) ov = v"
  using assms
proof (induction pre v arbitrary: ov rule: sanitize_at.induct)
  case (1 pre v)
  note jv = "1.prems"(1) and jo = "1.prems"(2) and H2 = "1.prems"(3) and H3 = "1.prems"(4)
  from H2[of "[]" ov] consider
    (node) "is_JObj ov" "\<exists>k r. secret_path (pre @ k # r)" "is_JObj v"
  | (leaf) "secret_path pre" "isSecretString ov" "v = ov"
    by auto
  then show ?case
  proof cases
    case leaf
    then have "sanitize_at pre v = JStr (placeholder_for pre v)" by (simp add: sanitize_at_leaf)
    then show ?thesis using leaf(3) by (simp add: deepMerge_not_plain)
  next
    case node
    from node(2) have cp: "container_path pre" and ns: "\<not> secret_path pre"
      using secret_path_strict_prefix by blast+
    from node(3) jv obtain ps where v: "v = Obj ps" by (cases v) auto
    from node(1) jo obtain os where ov: "ov = Obj os" by (cases ov) auto
    from jv v have dps: "distinct (map fst ps)" by simp
    from jo ov have dos: "distinct (map fst os)" by simp
    let ?ps' = "map (\<lambda>kv. (fst kv, sanitize_at (pre @ [fst kv]) (snd kv))) ps"
    have san: "sanitize_at pre v = Obj ?ps'"
      unfolding v using ns cp by (rule sanitize_at_container)
    have keys': "map fst ?ps' = map fst ps" by simp
    have sub: "fst ` set os \<subseteq> fst ` set ?ps'"
    proof
      fix k assume "k \<in> fst ` set os"
      then obtain w where "(k, w) \<in> set os" by auto
      with dos have "map_of os k = Some w" by simp
      then have "get_path ov [k] = Some w" by (simp add: ov)
      from H2[OF this] have "\<exists>c. get_path v [k] = Some c" by auto
      then have "map_of ps k \<noteq> None" by (auto simp: v split: option.splits)
      then have "k \<in> fst ` set ps" by (simp add: map_of_eq_None_iff)
      then show "k \<in> fst ` set ?ps'" using keys' by (metis set_map)
    qed
    have "ps = merge_loop ?ps' os"
    proof (rule alist_eqI[OF dps])
      show "map fst ps = map fst (merge_loop ?ps' os)"
        using merge_loop_keys[OF sub] keys' by simp
    next
      fix k assume "k \<in> fst ` set ps"
      then obtain c where kc: "(k, c) \<in> set ps" by auto
      with dps have c: "map_of ps k = Some c" by simp
      have jc: "json_compatible c" using jv c unfolding v by (rule json_compatible_lookup)
      have c': "map_of ?ps' k = Some (sanitize_at (pre @ [k]) c)"
        using map_of_map_values[of "\<lambda>k. sanitize_at (pre @ [k])" ps k] c by simp
      have sub_v: "get_path v (k # q) = get_path c q" for q by (simp add: v c)
      show "map_of ps k = map_of (merge_loop ?ps' os) k"
      proof (cases "map_of os k")
        case None
        have "sanitize_at (pre @ [k]) c = c"
        proof (rule sanitize_at_id[OF jc])
          fix q w assume sp: "secret_path ((pre @ [k]) @ q)" and g: "get_path c q = Some w"
          show "\<not> isSecretString w"
          proof
            assume "isSecretString w"
            with H3[of "k # q" w] sp g sub_v have "get_path ov (k # q) = Some w" by simp
            with None show False by (simp add: ov)
          qed
        qed
        with None c c' show ?thesis by (simp add: merge_loop_lookup[OF dos])
      next
        case (Some o')
        have jo': "json_compatible o'" using jo Some unfolding ov by (rule json_compatible_lookup)
        have sub_o: "get_path ov (k # q) = get_path o' q" for q by (simp add: ov Some)
        have "deepMerge (sanitize_at (pre @ [fst (k, c)]) (snd (k, c))) o' = snd (k, c)"
        proof (rule "1.IH"[OF ns _ _ _ jo'])
          show "container_path pre \<and> isPlainObject v" using cp v by simp
          show "(k, c) \<in> set (entries v)" using kc v by simp
          show "json_compatible (snd (k, c))" using jc by simp
        next
          fix q w assume "get_path o' q = Some w"
          then have "get_path ov (k # q) = Some w" by (simp add: sub_o)
          from H2[OF this] show
            "(is_JObj w \<and> (\<exists>ka r. secret_path ((pre @ [fst (k, c)]) @ q @ ka # r)) \<and>
              (\<exists>ca. get_path (snd (k, c)) q = Some ca \<and> is_JObj ca)) \<or>
             (secret_path ((pre @ [fst (k, c)]) @ q) \<and> isSecretString w \<and>
              get_path (snd (k, c)) q = Some w)"
            by (simp add: sub_v)
        next
          fix q w assume "secret_path ((pre @ [fst (k, c)]) @ q)" "get_path (snd (k, c)) q = Some w"
            "isSecretString w"
          with H3[of "k # q" w] show "get_path o' q = Some w" by (simp add: sub_v sub_o)
        qed
        with Some c c' show ?thesis by (simp add: merge_loop_lookup[OF dos])
      qed
    qed
    then have eq: "merge_loop ?ps' os = ps" by (rule sym)
    have "deepMerge (sanitize_at pre v) ov = deepMerge (Obj ?ps') (Obj os)"
      by (simp only: san ov)
    also have "\<dots> = Obj (merge_loop ?ps' os)" by (rule deepMerge_plain)
    also have "\<dots> = v" by (simp only: eq v)
    finally show ?thesis .
  qed
qed

lemma merge_restores_document:
  assumes jc: "json_compatible D" and pl: "isPlainObject D"
    and ex: "extractMcpSecrets D = Inr r"
    and np: "\<And>p. secret_site D p \<Longrightarrow> ''__proto__'' \<notin> set p"
  shows "mergeOverrides (sanitizedConfig r) (secretOverrides r) = D"
proof -
  have san: "sanitizedConfig r = sanitize_at [] D" using jc ex by (rule extractMcpSecrets_sanitized)
  have f: "secretOverrides r = fold record_secret (document_sites D) (Obj [])"
    using jc ex by (rule extractMcpSecrets_fold)
  have "good_tree (secretOverrides r)"
    using jc ex np by (rule overrides_record_every_secret(1))
  then have jo: "json_compatible (secretOverrides r)" by (simp add: good_tree_def)
  have rec: "get_path (secretOverrides r) p = get_path D p" if "secret_site D p" for p
    using jc ex np that by (rule overrides_record_every_secret(2))
  have "deepMerge (sanitize_at [] D) (secretOverrides r) = D"
  proof (rule deepMerge_restores[OF jc jo])
    fix q w assume g: "get_path (secretOverrides r) q = Some w"
    have sites: "p \<noteq> [] \<and> isSecretString v" if "(p, v) \<in> set (document_sites D)" for p v
      using document_sites_sound[OF jc that] by (auto dest: secret_path_length)
    from fold_record_secret_paths[OF sites g[unfolded f]]
    consider (site) "(q, w) \<in> set (document_sites D)"
      | (inner) p v where "is_JObj w" "(p, v) \<in> set (document_sites D)" "strict_prefix q p"
      | (root) "get_path (Obj []) q = Some w" by blast
    then show "(is_JObj w \<and> (\<exists>k r. secret_path ([] @ q @ k # r)) \<and>
              (\<exists>c. get_path D q = Some c \<and> is_JObj c)) \<or>
           (secret_path ([] @ q) \<and> isSecretString w \<and> get_path D q = Some w)"
    proof cases
      case site
      from document_sites_sound[OF jc site] show ?thesis by simp
    next
      case inner
      from document_sites_sound[OF jc inner(2)] have p: "secret_path p" "get_path D p = Some v" by auto
      from inner(3) obtain k t where pq: "p = q @ k # t"
        by (auto simp: strict_prefix_def prefix_def) (metis list.exhaust)
      from get_path_prefix_object[OF p(2)[unfolded pq]] p(1) pq inner(1) show ?thesis by auto
    next
      case root
      then have "q = []" "w = Obj []" by (auto dest: get_path_Obj_Nil)
      moreover have "secret_path ([] @ [] @ ''mcp'' # [''s'', ''headers'', ''h''])"
        by (simp add: secret_path_def)
      ultimately show ?thesis using pl by (cases D) auto
    qed
  next
    fix q w assume "secret_path ([] @ q)" "get_path D q = Some w" "isSecretString w"
    then have "secret_site D q" by (simp add: secret_site_def)
    from rec[OF this] \<open>get_path D q = Some w\<close> show "get_path (secretOverrides r) q = Some w" by simp
  qed
  then show ?thesis by (simp add: mergeOverrides_def san)
qed

text \<open>
  The replacement of a header secret, with the pattern of the scheme written out: the
  scheme, a letter and then letters, digits, \<open>+\<close>, \<open>.\<close> and \<open>-\<close>, with all the white space
  that follows it, is kept in front of the placeholder for the two authorization
  headers; in every other case the placeholder is the whole replacement.
\<close>

lemma header_replacement:
  assumes jc: "json_compatible D" and ex: "extractMcpSecrets D = Inr r"
    and g: "get_path D [''mcp'', s, ''headers'', h] = Some (JStr val)"
    and sec: "isSecretString (JStr val)"
  shows "(toLowerCase h = ''authorization'' \<or> toLowerCase h = ''proxy-authorization'') \<longrightarrow>
         (\<forall>a body ws rest. val = a # body @ ws @ rest \<longrightarrow> (is_lower a \<or> is_upper a) \<longrightarrow>
            list_all is_scheme_char body \<longrightarrow> ws \<noteq> [] \<longrightarrow> list_all is_space ws \<longrightarrow>
            (rest = [] \<or> \<not> is_space (hd rest)) \<longrightarrow>
            get_path (sanitizedConfig r) [''mcp'', s, ''headers'', h] =
              Some (JStr ((a # body @ ws) @ ''{env:'' @ buildHeaderEnvVar s h @ ''}'')))"
    and "\<not> (toLowerCase h = ''authorization'' \<or> toLowerCase h = ''proxy-authorization'') \<or>
         \<not> (\<exists>a body ws rest. val = a # body @ ws @ rest \<and> (is_lower a \<or> is_upper a) \<and>
              list_all is_scheme_char body \<and> ws \<noteq> [] \<and> list_all is_space ws) \<longrightarrow>
         get_path (sanitizedConfig r) [''mcp'', s, ''headers'', h] =
           Some (JStr (''{env:'' @ buildHeaderEnvVar s h @ ''}''))"
proof -
  note repl = header_secret_sanitized[OF jc ex g sec]
  show "(toLowerCase h = ''authorization'' \<or> toLowerCase h = ''proxy-authorization'') \<longrightarrow>
         (\<forall>a body ws rest. val = a # body @ ws @ rest \<longrightarrow> (is_lower a \<or> is_upper a) \<longrightarrow>
            list_all is_scheme_char body \<longrightarrow> ws \<noteq> [] \<longrightarrow> list_all is_space ws \<longrightarrow>
            (rest = [] \<or> \<not> is_space (hd rest)) \<longrightarrow>
            get_path (sanitizedConfig r) [''mcp'', s, ''headers'', h] =
              Some (JStr ((a # body @ ws) @ ''{env:'' @ buildHeaderEnvVar s h @ ''}'')))"
  proof (intro impI allI)
    fix a body ws rest
    assume auth: "toLowerCase h = ''authorization'' \<or> toLowerCase h = ''proxy-authorization''"
      and v: "val = a # body @ ws @ rest" and a: "is_lower a \<or> is_upper a"
      and b: "list_all is_scheme_char body" and w: "ws \<noteq> []" "list_all is_space ws"
      and r: "rest = [] \<or> \<not> is_space (hd rest)"
    have "scheme_match val = Some (a # body @ ws)"
      unfolding v using a b w r by (rule scheme_match_Some)
    with auth have "buildHeaderPlaceholder val (buildHeaderEnvVar s h) h =
        (a # body @ ws) @ ''{env:'' @ buildHeaderEnvVar s h @ ''}''"
      by (simp add: buildHeaderPlaceholder_def isAuthorizationHeader_iff)
    with repl show "get_path (sanitizedConfig r) [''mcp'', s, ''headers'', h] =
              Some (JStr ((a # body @ ws) @ ''{env:'' @ buildHeaderEnvVar s h @ ''}''))"
      by simp
  qed
  show "\<not> (toLowerCase h = ''authorization'' \<or> toLowerCase h = ''proxy-authorization'') \<or>
         \<not> (\<exists>a body ws rest. val = a # body @ ws @ rest \<and> (is_lower a \<or> is_upper a) \<and>
              list_all is_scheme_char body \<and> ws \<noteq> [] \<and> list_all is_space ws) \<longrightarrow>
         get_path (sanitizedConfig r) [''mcp'', s, ''headers'', h] =
           Some (JStr (''{env:'' @ buildHeaderEnvVar s h @ ''}''))"
  proof
    assume c: "\<not> (toLowerCase h = ''authorization'' \<or> toLowerCase h = ''proxy-authorization'') \<or>
         \<not> (\<exists>a body ws rest. val = a # body @ ws @ rest \<and> (is_lower a \<or> is_upper a) \<and>
              list_all is_scheme_char body \<and> ws \<noteq> [] \<and> list_all is_space ws)"
    have "buildHeaderPlaceholder val (buildHeaderEnvVar s h) h = ''{env:'' @ buildHeaderEnvVar s h @ ''}''"
    proof (cases "isAuthorizationHeader h")
      case False
      then show ?thesis by (simp add: buildHeaderPlaceholder_def)
    next
      case True
      with c have nd: "\<not> (\<exists>a body ws rest. val = a # body @ ws @ rest \<and> (is_lower a \<or> is_upper a) \<and>
              list_all is_scheme_char body \<and> ws \<noteq> [] \<and> list_all is_space ws)"
        unfolding isAuthorizationHeader_iff by blast
      have "scheme_match val = None"
      proof (cases "scheme_match val")
        case (Some m)
        from scheme_match_SomeD[OF Some] nd show ?thesis by blast
      qed simp
      then show ?thesis by (simp add: buildHeaderPlaceholder_def)
    qed
    with repl show "get_path (sanitizedConfig r) [''mcp'', s, ''headers'', h] =
           Some (JStr (''{env:'' @ buildHeaderEnvVar s h @ ''}''))" by simp
  qed
qed

section \<open>The claims\<close>

text \<open>
  Claim C1. For every JSON-compatible document, the overrides put back into the
  sanitized document give the document again: every secret site has one placeholder
  and one override entry with the original value, and there is no other entry.

  The code does not do this for a header named \<open>__proto__\<close>. In \<open>setNestedValue\<close> the
  last assignment \<open>current['__proto__'] = value\<close> on the fresh \<open>headers\<close> object of the
  override tree reaches the \<open>__proto__\<close> setter of \<open>Object.prototype\<close>, which ignores a
  string: the placeholder is written to the sanitized document and the secret is
  recorded nowhere. The theorem evaluates the code on such a document. For a document
  with no \<open>__proto__\<close> in the path of a secret the claim holds (lemmas
  \<open>overrides_record_every_secret\<close>, \<open>overrides_only_secrets\<close> and
  \<open>merge_restores_document\<close>).
\<close>

theorem C1_proto_header_secret_lost:
  "json_compatible doc_proto_header \<and>
   secret_site doc_proto_header [''mcp'', ''s'', ''headers'', ''__proto__''] \<and>
   extractMcpSecrets doc_proto_header =
     Inr \<lparr>sanitizedConfig =
            Obj [(''mcp'', Obj [(''s'', Obj [(''headers'',
              Obj [(''__proto__'', JStr ''{env:OPENCODE_MCP_S_PROTO}'')])])])],
          secretOverrides = Obj [(''mcp'', Obj [(''s'', Obj [(''headers'', Obj [])])])]\<rparr> \<and>
   get_path (Obj [(''mcp'', Obj [(''s'', Obj [(''headers'', Obj [])])])])
     [''mcp'', ''s'', ''headers'', ''__proto__''] = None \<and>
   mergeOverrides
     (Obj [(''mcp'', Obj [(''s'', Obj [(''headers'',
        Obj [(''__proto__'', JStr ''{env:OPENCODE_MCP_S_PROTO}'')])])])])
     (Obj [(''mcp'', Obj [(''s'', Obj [(''headers'', Obj [])])])])
     \<noteq> doc_proto_header"
  by code_simp

text \<open>
  Claim C2. Every field outside the secret sites is the same in the input and in
  \<open>sanitizedConfig\<close>: a path with no secret site at or below it leads to the same value
  in both. In particular a value at a header or client-secret path that is not a
  secret (a placeholder, an empty string, a value that is not a string) is kept and
  has no entry in \<open>secretOverrides\<close>; so is \<open>oauth.clientId\<close>. Whatever
  \<open>secretOverrides\<close> holds at a path that is not a secret site is an enclosing mapping.
\<close>

theorem C2_non_interference:
  assumes jc: "json_compatible D" and ex: "extractMcpSecrets D = Inr r"
  shows "(\<forall>p. (\<forall>q. prefix p q \<longrightarrow> \<not> secret_site D q) \<longrightarrow>
             get_path (sanitizedConfig r) p = get_path D p) \<and>
         (\<forall>p v. secret_path p \<longrightarrow> get_path D p = Some v \<longrightarrow> \<not> isSecretString v \<longrightarrow>
             get_path (sanitizedConfig r) p = Some v \<and> get_path (secretOverrides r) p = None) \<and>
         (\<forall>s. get_path (sanitizedConfig r) [''mcp'', s, ''oauth'', ''clientId'']
                 = get_path D [''mcp'', s, ''oauth'', ''clientId''] \<and>
              get_path (secretOverrides r) [''mcp'', s, ''oauth'', ''clientId''] = None) \<and>
         (\<forall>p w. get_path (secretOverrides r) p = Some w \<longrightarrow> \<not> secret_site D p \<longrightarrow>
             is_JObj w \<and> length p < 4)"
proof -
  have frame: "get_path (sanitizedConfig r) p = get_path D p"
    if "\<And>q. prefix p q \<Longrightarrow> \<not> secret_site D q" for p
    using jc ex that by (rule sanitized_frame)
  have ovr: "is_JObj w \<and> length p < 4"
    if "get_path (secretOverrides r) p = Some w" "\<not> secret_site D p" for p w
    using jc ex that by (rule overrides_only_secrets)
  have leaf: "get_path (sanitizedConfig r) p = Some v \<and> get_path (secretOverrides r) p = None"
    if "secret_path p" "get_path D p = Some v" "\<not> isSecretString v" for p v
    using jc ex that by (rule non_secret_value_untouched)
  have cid: "get_path (sanitizedConfig r) [''mcp'', s, ''oauth'', ''clientId'']
                 = get_path D [''mcp'', s, ''oauth'', ''clientId''] \<and>
              get_path (secretOverrides r) [''mcp'', s, ''oauth'', ''clientId''] = None" for s
  proof -
    let ?p = "[''mcp'', s, ''oauth'', ''clientId'']"
    have nsq: "\<not> secret_site D q" if "prefix ?p q" for q
    proof
      assume "secret_site D q"
      then have "secret_path q" by (simp add: secret_site_def)
      then have "length q = 4" by (rule secret_path_length)
      with that have "q = ?p" by (auto simp: prefix_def)
      with \<open>secret_path q\<close> show False by (simp add: secret_path_def)
    qed
    then have "get_path (sanitizedConfig r) ?p = get_path D ?p" by (rule frame)
    moreover have "get_path (secretOverrides r) ?p = None"
    proof (cases "get_path (secretOverrides r) ?p")
      case (Some w)
      from ovr[OF Some nsq] show ?thesis by simp
    qed simp
    ultimately show ?thesis by simp
  qed
  from frame leaf cid ovr show ?thesis by blast
qed

theorem C2_non_interference_witness:
  "json_compatible doc_github \<and> extractMcpSecrets doc_github = Inr result_github \<and>
   get_path (sanitizedConfig result_github) [''mcp'', ''github'', ''oauth'', ''clientId'']
     = get_path doc_github [''mcp'', ''github'', ''oauth'', ''clientId''] \<and>
   get_path (secretOverrides result_github) [''mcp'', ''github'', ''oauth'', ''clientId''] = None"
  using C2_non_interference[OF doc_github_compatible doc_github_result]
    doc_github_compatible doc_github_result by blast

text \<open>
  Claim C3. For every extracted header secret, the variable named in the placeholder is
  the header name itself when the header name matches \<open>^[A-Z0-9_]+$\<close>, and otherwise
  \<open>OPENCODE_MCP_<SERVER_TOKEN>_<HEADER_TOKEN>\<close>, each token being the runs of letters
  and digits of the name, upper-cased and joined by single underscores, with the
  fallbacks \<open>SERVER\<close> and \<open>VALUE\<close> for a name without letters and digits.
\<close>

theorem C3_env_var_name:
  assumes "json_compatible D" and "extractMcpSecrets D = Inr r"
    and "get_path D [''mcp'', serverName, ''headers'', headerName] = Some v"
    and "isSecretString v"
  shows "\<exists>scheme. get_path (sanitizedConfig r) [''mcp'', serverName, ''headers'', headerName] =
     Some (JStr (scheme @ ''{env:'' @
       (if headerName \<noteq> [] \<and> list_all (\<lambda>c. is_upper c \<or> is_digit c \<or> c = CHR ''_'') headerName
        then headerName
        else ''OPENCODE_MCP_'' @ env_token_of_runs serverName ''SERVER'' @ ''_'' @
             env_token_of_runs headerName ''VALUE'') @ ''}''))"
proof -
  obtain scheme where "buildHeaderPlaceholder (js_String v) (buildHeaderEnvVar serverName headerName) headerName
      = scheme @ ''{env:'' @ buildHeaderEnvVar serverName headerName @ ''}''"
    using buildHeaderPlaceholder_shape by blast
  with header_secret_sanitized[OF assms] show ?thesis
    by (auto simp: buildHeaderEnvVar_runs is_env_name_def)
qed

theorem C3_env_var_name_witness:
  "(\<exists>scheme. get_path (sanitizedConfig result_context7) [''mcp'', ''context7'', ''headers'', ''CONTEXT7_API_KEY'']
      = Some (JStr (scheme @ ''{env:CONTEXT7_API_KEY}''))) \<and>
   (\<exists>scheme. get_path (sanitizedConfig result_github) [''mcp'', ''github'', ''headers'', ''Authorization'']
      = Some (JStr (scheme @ ''{env:OPENCODE_MCP_GITHUB_AUTHORIZATION}'')))"
proof -
  have c1: "json_compatible doc_context7" by code_simp
  have c2: "extractMcpSecrets doc_context7 = Inr result_context7" by code_simp
  have c3: "get_path doc_context7 [''mcp'', ''context7'', ''headers'', ''CONTEXT7_API_KEY'']
              = Some (JStr ''ctx7-secret'')" by code_simp
  have c4: "isSecretString (JStr ''ctx7-secret'')" by code_simp
  have n1: "(if ''CONTEXT7_API_KEY'' \<noteq> [] \<and>
               list_all (\<lambda>c. is_upper c \<or> is_digit c \<or> c = CHR ''_'') ''CONTEXT7_API_KEY''
            then ''CONTEXT7_API_KEY''
            else ''OPENCODE_MCP_'' @ env_token_of_runs ''context7'' ''SERVER'' @ ''_'' @
                 env_token_of_runs ''CONTEXT7_API_KEY'' ''VALUE'') = ''CONTEXT7_API_KEY''"
    by code_simp
  have g3: "get_path doc_github [''mcp'', ''github'', ''headers'', ''Authorization'']
              = Some (JStr ''Bearer ghp_example'')" by code_simp
  have g4: "isSecretString (JStr ''Bearer ghp_example'')" by code_simp
  have n2: "(if ''Authorization'' \<noteq> [] \<and>
               list_all (\<lambda>c. is_upper c \<or> is_digit c \<or> c = CHR ''_'') ''Authorization''
            then ''Authorization''
            else ''OPENCODE_MCP_'' @ env_token_of_runs ''github'' ''SERVER'' @ ''_'' @
                 env_token_of_runs ''Authorization'' ''VALUE'') = ''OPENCODE_MCP_GITHUB_AUTHORIZATION''"
    by code_simp
  from C3_env_var_name[OF c1 c2 c3 c4] C3_env_var_name[OF doc_github_compatible doc_github_result g3 g4]
  show ?thesis unfolding n1 n2 by simp
qed

text \<open>
  Claim C4. For every extracted header secret the replacement is the placeholder, after
  the scheme prefix for an authorization header, and the override records the original
  full value.

  The replacement is as claimed for every document (lemma \<open>header_replacement\<close>), and
  the override records the original value when no \<open>__proto__\<close> is in the path of a
  secret (lemma \<open>overrides_record_every_secret\<close>). The override is not always recorded: for
  a server named \<open>__proto__\<close> the assignment \<open>current['__proto__'] = {}\<close> in
  \<open>setNestedValue\<close> replaces the prototype of the \<open>mcp\<close> object of the override tree,
  and the value is stored in that prototype, where no own property shows it. The
  theorem evaluates the code on such a document: the own properties of
  \<open>secretOverrides\<close>, which are what \<open>JSON.stringify\<close> writes, are \<open>{mcp: {}}\<close>.
\<close>

theorem C4_proto_server_override_lost:
  "json_compatible doc_proto_server \<and>
   secret_site doc_proto_server [''mcp'', ''__proto__'', ''headers'', ''Authorization''] \<and>
   extractMcpSecrets doc_proto_server =
     Inr \<lparr>sanitizedConfig =
            Obj [(''mcp'', Obj [(''__proto__'', Obj [(''headers'',
              Obj [(''Authorization'', JStr ''Bearer {env:OPENCODE_MCP_PROTO_AUTHORIZATION}'')])])])],
          secretOverrides =
            Obj [(''mcp'',
              JObj (Obj [(''headers'', Obj [(''Authorization'', JStr ''Bearer abc'')])]) [])]\<rparr> \<and>
   get_path (Obj [(''mcp'',
              JObj (Obj [(''headers'', Obj [(''Authorization'', JStr ''Bearer abc'')])]) [])])
     [''mcp'', ''__proto__'', ''headers'', ''Authorization''] = None \<and>
   cloneConfig (Obj [(''mcp'',
              JObj (Obj [(''headers'', Obj [(''Authorization'', JStr ''Bearer abc'')])]) [])])
     = Inr (Obj [(''mcp'', Obj [])])"
  by code_simp

text \<open>
  Claim C5. For a JSON-compatible document in which every header value and every
  \<open>oauth.clientSecret\<close> already matches \<open>{env:...}\<close>, \<open>extractMcpSecrets\<close> returns the
  document itself and the empty mapping.
\<close>

theorem C5_already_sanitized_identity:
  assumes "json_compatible D" and "isPlainObject D" and "already_sanitized D"
  shows "extractMcpSecrets D = Inr \<lparr>sanitizedConfig = D, secretOverrides = Obj []\<rparr>"
proof -
  from assms(2) have "D \<noteq> JNull" by auto
  with assms(1) obtain r where r: "extractMcpSecrets D = Inr r"
    using extractMcpSecrets_total by blast
  have "r = \<lparr>sanitizedConfig = D, secretOverrides = Obj []\<rparr>"
    using assms(1) r by (rule extractMcpSecrets_no_secret) (rule already_sanitized_no_secret[OF assms(1,3)])
  with r show ?thesis by simp
qed

theorem C5_already_sanitized_identity_witness:
  "json_compatible doc_placeholders \<and> isPlainObject doc_placeholders \<and>
   already_sanitized doc_placeholders \<and>
   extractMcpSecrets doc_placeholders =
     Inr \<lparr>sanitizedConfig = doc_placeholders, secretOverrides = Obj []\<rparr>"
proof -
  have h1: "json_compatible doc_placeholders" by code_simp
  have h2: "isPlainObject doc_placeholders" by code_simp
  have h3: "already_sanitized doc_placeholders" by code_simp
  from C5_already_sanitized_identity[OF h1 h2 h3] h1 h2 h3 show ?thesis by simp
qed

text \<open>
  Claim C6. For plain mappings \<open>base\<close> and \<open>toRemove\<close> (the keys of \<open>toRemove\<close> distinct,
  as the keys of an object are), \<open>stripOverrideKeys\<close> returns a plain mapping that is \<open>base\<close> changed at the keys of \<open>toRemove\<close> only: a key absent
  from \<open>toRemove\<close> is as in \<open>base\<close>, a key absent from \<open>base\<close> stays absent, and a key
  of both holds the nested result when the two values are plain mappings and that
  result is not empty, and is deleted in every other case (the nested result is empty,
  or one of the two values is not a plain mapping). So nothing is left at any path
  where \<open>toRemove\<close> has a value that is not a mapping. When one of the arguments is not
  a plain mapping, \<open>base\<close> is returned.
\<close>

theorem C6_stripOverrideKeys_contract:
  assumes "isPlainObject base" and "isPlainObject toRemove"
    and "distinct (map fst (entries toRemove))"
  shows "isPlainObject (stripOverrideKeys base toRemove) \<and>
         (\<forall>key. own_prop toRemove key = None \<longrightarrow>
            own_prop (stripOverrideKeys base toRemove) key = own_prop base key) \<and>
         (\<forall>key. own_prop base key = None \<longrightarrow>
            own_prop (stripOverrideKeys base toRemove) key = None) \<and>
         (\<forall>key currentValue removeValue.
            own_prop base key = Some currentValue \<longrightarrow> own_prop toRemove key = Some removeValue \<longrightarrow>
            own_prop (stripOverrideKeys base toRemove) key =
              (if isPlainObject removeValue \<and> isPlainObject currentValue
               then (if entries (stripOverrideKeys currentValue removeValue) = [] then None
                     else Some (stripOverrideKeys currentValue removeValue))
               else None)) \<and>
         (json_compatible toRemove \<longrightarrow>
            (\<forall>path v. get_path toRemove path = Some v \<longrightarrow> \<not> isPlainObject v \<longrightarrow>
               get_path (stripOverrideKeys base toRemove) path = None)) \<and>
         (\<forall>b t. \<not> isPlainObject b \<or> \<not> isPlainObject t \<longrightarrow> stripOverrideKeys b t = b)"
proof -
  note look = stripOverrideKeys_lookup[OF assms]
  have 1: "isPlainObject (stripOverrideKeys base toRemove)"
    using assms(1) by (rule stripOverrideKeys_is_plain)
  have 2: "own_prop (stripOverrideKeys base toRemove) key = own_prop base key"
    if "own_prop toRemove key = None" for key using that by (simp add: look)
  have 3: "own_prop (stripOverrideKeys base toRemove) key = None"
    if "own_prop base key = None" for key using that by (simp add: look split: option.splits)
  have 4: "own_prop (stripOverrideKeys base toRemove) key =
              (if isPlainObject rv \<and> isPlainObject cv
               then (if entries (stripOverrideKeys cv rv) = [] then None
                     else Some (stripOverrideKeys cv rv))
               else None)"
    if "own_prop base key = Some cv" "own_prop toRemove key = Some rv"
    for key cv rv using that by (simp add: look strip_value_def)
  have 5: "get_path (stripOverrideKeys base toRemove) path = None"
    if "json_compatible toRemove" "get_path toRemove path = Some v" "\<not> isPlainObject v" for path v
    using that(1) assms(1,2) that(2,3) by (rule stripOverrideKeys_removes_leaves)
  have 6: "stripOverrideKeys b t = b" if "\<not> isPlainObject b \<or> \<not> isPlainObject t" for b t
    using that by (rule stripOverrideKeys_not_plain)
  from 1 2 3 4 5 6 show ?thesis by blast
qed

theorem C6_stripOverrideKeys_contract_witness:
  "isPlainObject overrides_a \<and> distinct (map fst (entries overrides_a)) \<and>
   json_compatible overrides_a \<and>
   stripOverrideKeys overrides_a overrides_a = Obj [] \<and>
   get_path (stripOverrideKeys overrides_a overrides_a) [''mcp'', ''a'', ''headers'', ''X''] = None \<and>
   isPlainObject strip_base \<and> isPlainObject strip_remove \<and>
   distinct (map fst (entries strip_remove)) \<and>
   own_prop (stripOverrideKeys strip_base strip_remove) ''a'' = None \<and>
   own_prop (stripOverrideKeys strip_base strip_remove) ''b'' = Some (Obj [(''y'', JNum 2)]) \<and>
   own_prop (stripOverrideKeys strip_base strip_remove) ''c'' = Some (JNum 3) \<and>
   own_prop (stripOverrideKeys strip_base strip_remove) ''d'' = None \<and>
   stripOverrideKeys (JStr ''x'') overrides_a = JStr ''x''"
proof -
  have h1: "isPlainObject overrides_a" by code_simp
  have h2: "json_compatible overrides_a" by code_simp
  have hd: "distinct (map fst (entries overrides_a))" by code_simp
  have h3: "stripOverrideKeys overrides_a overrides_a = Obj []" by code_simp
  have h4: "get_path overrides_a [''mcp'', ''a'', ''headers'', ''X''] = Some (JStr ''1'')" by code_simp
  have h5: "\<not> isPlainObject (JStr ''1'')" by simp
  note whole = C6_stripOverrideKeys_contract[OF h1 h1 hd]
  note leaves = whole[THEN conjunct2, THEN conjunct2, THEN conjunct2, THEN conjunct2,
                      THEN conjunct1, rule_format]
  note noop = whole[THEN conjunct2, THEN conjunct2, THEN conjunct2, THEN conjunct2,
                    THEN conjunct2, rule_format]
  have w1: "get_path (stripOverrideKeys overrides_a overrides_a) [''mcp'', ''a'', ''headers'', ''X''] = None"
    using h2 h4 h5 by (rule leaves)
  have w2: "stripOverrideKeys (JStr ''x'') overrides_a = JStr ''x''"
    by (rule noop) simp
  have b1: "isPlainObject strip_base" by code_simp
  have b2: "isPlainObject strip_remove" by code_simp
  have b3: "distinct (map fst (entries strip_remove))" by code_simp
  note keys = C6_stripOverrideKeys_contract[OF b1 b2 b3]
  note kept = keys[THEN conjunct2, THEN conjunct1, rule_format]
  note absent = keys[THEN conjunct2, THEN conjunct2, THEN conjunct1, rule_format]
  note both = keys[THEN conjunct2, THEN conjunct2, THEN conjunct2, THEN conjunct1, rule_format]
  have a1: "own_prop strip_base ''a'' = Some (JStr ''1'')" by code_simp
  have a2: "own_prop strip_remove ''a'' = Some (Obj [(''x'', JNum 1)])" by code_simp
  have ka: "own_prop (stripOverrideKeys strip_base strip_remove) ''a'' = None"
    using both[OF a1 a2] by simp
  have c1: "own_prop strip_base ''b'' = Some (Obj [(''x'', JNum 1), (''y'', JNum 2)])" by code_simp
  have c2: "own_prop strip_remove ''b'' = Some (Obj [(''x'', JUndefined)])" by code_simp
  have c3: "stripOverrideKeys (Obj [(''x'', JNum 1), (''y'', JNum 2)]) (Obj [(''x'', JUndefined)])
              = Obj [(''y'', JNum 2)]" by code_simp
  have kb: "own_prop (stripOverrideKeys strip_base strip_remove) ''b'' = Some (Obj [(''y'', JNum 2)])"
    using both[OF c1 c2] by (simp add: c3)
  have d1: "own_prop strip_remove ''c'' = None" by code_simp
  have d2: "own_prop strip_base ''c'' = Some (JNum 3)" by code_simp
  have kc: "own_prop (stripOverrideKeys strip_base strip_remove) ''c'' = Some (JNum 3)"
    using kept[OF d1] d2 by simp
  have e1: "own_prop strip_base ''d'' = None" by code_simp
  have kd: "own_prop (stripOverrideKeys strip_base strip_remove) ''d'' = None"
    using e1 by (rule absent)
  from h1 h2 hd h3 w1 w2 b1 b2 b3 ka kb kc kd show ?thesis by simp
qed




text \<open>
  Claim C8. For plain mappings \<open>base\<close> and \<open>extra\<close>, \<open>mergeOverrides\<close> returns a plain
  mapping in which a key of \<open>base\<close> alone is as in \<open>base\<close>, a key of \<open>extra\<close> alone is as
  in \<open>extra\<close>, and a key of both holds the merge of the two values when both are plain
  mappings and the value of \<open>extra\<close> otherwise; no key of \<open>base\<close> is dropped.
\<close>

theorem C8_mergeOverrides_contract:
  assumes "isPlainObject base" and "isPlainObject extra"
    and "distinct (map fst (entries extra))"
  shows "isPlainObject (mergeOverrides base extra) \<and>
         (\<forall>key. own_prop extra key = None \<longrightarrow>
            own_prop (mergeOverrides base extra) key = own_prop base key) \<and>
         (\<forall>key extraValue. own_prop base key = None \<longrightarrow> own_prop extra key = Some extraValue \<longrightarrow>
            own_prop (mergeOverrides base extra) key = Some extraValue) \<and>
         (\<forall>key baseValue extraValue.
            own_prop base key = Some baseValue \<longrightarrow> own_prop extra key = Some extraValue \<longrightarrow>
            own_prop (mergeOverrides base extra) key =
              Some (if isPlainObject baseValue \<and> isPlainObject extraValue
                    then mergeOverrides baseValue extraValue else extraValue)) \<and>
         (\<forall>key. own_prop base key \<noteq> None \<longrightarrow> own_prop (mergeOverrides base extra) key \<noteq> None)"
proof -
  note look = mergeOverrides_lookup[OF assms]
  have 1: "isPlainObject (mergeOverrides base extra)"
    using assms(1,2) by (rule mergeOverrides_is_plain)
  have 4: "own_prop (mergeOverrides base extra) key =
              Some (if isPlainObject bv \<and> isPlainObject ev then mergeOverrides bv ev else ev)"
    if "own_prop base key = Some bv" "own_prop extra key = Some ev" for key bv ev
  proof -
    have "deepMerge bv ev = (if isPlainObject bv \<and> isPlainObject ev then mergeOverrides bv ev else ev)"
      using deepMerge_not_plain[of bv ev] by (auto simp: mergeOverrides_def)
    with that show ?thesis by (simp add: look)
  qed
  have 5: "own_prop (mergeOverrides base extra) key \<noteq> None" if "own_prop base key \<noteq> None" for key
    using that by (auto simp: look split: option.splits)
  from 1 4 5 show ?thesis by (auto simp: look)
qed

theorem C8_mergeOverrides_contract_witness:
  "own_prop (mergeOverrides (Obj [(''a'', Obj [(''x'', JNum 1)]), (''b'', JNum 2)])
                            (Obj [(''a'', Obj [(''y'', JNum 3)]), (''c'', JStr ''n'')])) ''b''
     = Some (JNum 2) \<and>
   own_prop (mergeOverrides (Obj [(''a'', Obj [(''x'', JNum 1)]), (''b'', JNum 2)])
                            (Obj [(''a'', Obj [(''y'', JNum 3)]), (''c'', JStr ''n'')])) ''c''
     = Some (JStr ''n'') \<and>
   own_prop (mergeOverrides (Obj [(''a'', Obj [(''x'', JNum 1)]), (''b'', JNum 2)])
                            (Obj [(''a'', Obj [(''y'', JNum 3)]), (''c'', JStr ''n'')])) ''a''
     = Some (mergeOverrides (Obj [(''x'', JNum 1)]) (Obj [(''y'', JNum 3)]))"
  using C8_mergeOverrides_contract[of "Obj [(''a'', Obj [(''x'', JNum 1)]), (''b'', JNum 2)]"
      "Obj [(''a'', Obj [(''y'', JNum 3)]), (''c'', JStr ''n'')]"]
  by (simp add: own_prop_def)

text \<open>
  Claim C9. A header value or client secret that contains \<open>{env:...}\<close> anywhere, with
  any text around it, is not a secret for \<open>extractMcpSecrets\<close>: it is kept as it is in
  \<open>sanitizedConfig\<close> and has no entry in \<open>secretOverrides\<close>.
\<close>

theorem C9_placeholder_containment:
  assumes "json_compatible D" and "extractMcpSecrets D = Inr r" and "secret_path p"
    and "get_path D p = Some (JStr (pre @ ''{'' @ [e, n, v] @ '':'' @ name @ ''}'' @ post))"
    and "toUpperCase [e, n, v] = ''ENV''" and "name \<noteq> []" and "CHR ''}'' \<notin> set name"
  shows "get_path (sanitizedConfig r) p =
           Some (JStr (pre @ ''{'' @ [e, n, v] @ '':'' @ name @ ''}'' @ post)) \<and>
         get_path (secretOverrides r) p = None"
proof -
  have "ENV_PLACEHOLDER_PATTERN_test (pre @ ''{'' @ [e, n, v] @ '':'' @ name @ ''}'' @ post)"
    using assms(5,6,7) by (rule ENV_PLACEHOLDER_PATTERN_test_contains)
  then have "\<not> isSecretString (JStr (pre @ ''{'' @ [e, n, v] @ '':'' @ name @ ''}'' @ post))"
    by simp
  with assms(1,2,3,4) show ?thesis by (rule non_secret_value_untouched)
qed

theorem C9_placeholder_containment_witness:
  "json_compatible doc_embedded \<and>
   extractMcpSecrets doc_embedded = Inr \<lparr>sanitizedConfig = doc_embedded, secretOverrides = Obj []\<rparr> \<and>
   get_path doc_embedded [''mcp'', ''s'', ''headers'', ''X-Key''] = Some (JStr ''secret-{env:X}-more'') \<and>
   get_path (sanitizedConfig \<lparr>sanitizedConfig = doc_embedded, secretOverrides = Obj []\<rparr>)
     [''mcp'', ''s'', ''headers'', ''X-Key''] = Some (JStr ''secret-{env:X}-more'') \<and>
   get_path (secretOverrides \<lparr>sanitizedConfig = doc_embedded, secretOverrides = Obj []\<rparr>)
     [''mcp'', ''s'', ''headers'', ''X-Key''] = None"
proof -
  have h1: "json_compatible doc_embedded" by code_simp
  have h2: "extractMcpSecrets doc_embedded = Inr \<lparr>sanitizedConfig = doc_embedded, secretOverrides = Obj []\<rparr>"
    by code_simp
  have h3: "secret_path [''mcp'', ''s'', ''headers'', ''X-Key'']" by code_simp
  have h4: "get_path doc_embedded [''mcp'', ''s'', ''headers'', ''X-Key'']
      = Some (JStr (''secret-'' @ ''{'' @ [CHR ''e'', CHR ''n'', CHR ''v''] @ '':'' @ ''X'' @ ''}'' @ ''-more''))"
    by code_simp
  have h5: "toUpperCase [CHR ''e'', CHR ''n'', CHR ''v''] = ''ENV''" by code_simp
  have h6: "''X'' \<noteq> []" by simp
  have h7: "CHR ''}'' \<notin> set ''X''" by simp
  from C9_placeholder_containment[OF h1 h2 h3 h4 h5 h6 h7] h1 h2 h4 show ?thesis by simp
qed

text \<open>
  Claim C10. In \<open>stripOverrideKeys\<close>, a key of both \<open>base\<close> and \<open>toRemove\<close> whose values
  are not both plain mappings is deleted, whatever the two values are; and a key whose
  value in \<open>base\<close> is the empty mapping is deleted when \<open>toRemove\<close> has a mapping there.
\<close>

theorem C10_strip_mismatch_deletes:
  assumes "isPlainObject base" and "isPlainObject toRemove"
    and "distinct (map fst (entries toRemove))"
    and "own_prop base key = Some currentValue" and "own_prop toRemove key = Some removeValue"
  shows "(\<not> (isPlainObject removeValue \<and> isPlainObject currentValue) \<longrightarrow>
            own_prop (stripOverrideKeys base toRemove) key = None) \<and>
         (currentValue = Obj [] \<and> isPlainObject removeValue \<longrightarrow>
            own_prop (stripOverrideKeys base toRemove) key = None)"
proof -
  note look = stripOverrideKeys_lookup[OF assms(1,2,3), of key]
  have e: "stripOverrideKeys (Obj []) removeValue = Obj []" if "isPlainObject removeValue"
    using that by (cases removeValue) (auto simp: stripOverrideKeys_plain strip_loop_empty)
  show ?thesis using assms(4,5) e by (auto simp: look strip_value_def)
qed

theorem C10_strip_mismatch_deletes_witness:
  "own_prop (stripOverrideKeys (Obj [(''a'', Obj [(''x'', JNum 1)]), (''b'', JNum 2)])
                               (Obj [(''a'', JStr ''other'')])) ''a'' = None \<and>
   own_prop (stripOverrideKeys (Obj [(''a'', JNum 5)]) (Obj [(''a'', Obj [(''x'', JNum 1)])])) ''a'' = None \<and>
   own_prop (stripOverrideKeys (Obj [(''a'', Obj [])]) (Obj [(''a'', Obj [(''x'', JNum 1)])])) ''a'' = None"
proof -
  have p: "isPlainObject (Obj xs)" for xs by simp
  have 1: "own_prop (stripOverrideKeys (Obj [(''a'', Obj [(''x'', JNum 1)]), (''b'', JNum 2)])
                               (Obj [(''a'', JStr ''other'')])) ''a'' = None"
    using C10_strip_mismatch_deletes[of "Obj [(''a'', Obj [(''x'', JNum 1)]), (''b'', JNum 2)]"
        "Obj [(''a'', JStr ''other'')]" "''a''" "Obj [(''x'', JNum 1)]" "JStr ''other''"]
    by (simp add: own_prop_def)
  have 2: "own_prop (stripOverrideKeys (Obj [(''a'', JNum 5)]) (Obj [(''a'', Obj [(''x'', JNum 1)])])) ''a'' = None"
    using C10_strip_mismatch_deletes[of "Obj [(''a'', JNum 5)]"
        "Obj [(''a'', Obj [(''x'', JNum 1)])]" "''a''" "JNum 5" "Obj [(''x'', JNum 1)]"]
    by (simp add: own_prop_def)
  have 3: "own_prop (stripOverrideKeys (Obj [(''a'', Obj [])]) (Obj [(''a'', Obj [(''x'', JNum 1)])])) ''a'' = None"
    using C10_strip_mismatch_deletes[of "Obj [(''a'', Obj [])]"
        "Obj [(''a'', Obj [(''x'', JNum 1)])]" "''a''" "Obj []" "Obj [(''x'', JNum 1)]"]
    by (simp add: own_prop_def)
  from 1 2 3 show ?thesis by simp
qed

end
